theory Spec2Isabelle
  imports Main "HOL-Library.Multiset"
begin

section \<open>Data model of the album gallery\<close>

text \<open>
  The gallery component (\<^verbatim>\<open>App\<close> of the PhotoVault file, the first of the two
  near-duplicate implementations) keeps a forest of albums in a reducer state and a
  navigation path in component state.  An image is an object with the four string fields
  \<^verbatim>\<open>id\<close>, \<^verbatim>\<open>name\<close>, \<^verbatim>\<open>url\<close>, \<^verbatim>\<open>size\<close>.  An album is an object with \<^verbatim>\<open>id\<close>,
  \<^verbatim>\<open>name\<close> and the two array fields \<^verbatim>\<open>images\<close> and \<^verbatim>\<open>subAlbums\<close>.  The tree is
  hydrated from a remote JSON document, and the code guards every read of the two array
  fields (\<^verbatim>\<open>item.subAlbums || []\<close>, \<^verbatim>\<open>if (item.subAlbums)\<close>), so both fields are
  optional in the model: \<open>None\<close> is a missing (falsy) field, \<open>Some xs\<close> an array, which is
  truthy even when empty.

  Strings are \<open>string\<close>; identifiers and names are only compared for equality, and
  \<^verbatim>\<open>trim\<close> below covers the white space of the Latin-1 range.
\<close>

datatype image = Image (image_id: string) (image_name: string) (image_url: string)
  (image_size: string)

datatype album = Album (album_id: string) (album_name: string)
  (images: "image list option") (subAlbums: "album list option")

text \<open>\<^verbatim>\<open>x || []\<close> for an array-or-missing field.\<close>

definition or_empty :: "'a list option \<Rightarrow> 'a list" where
  "or_empty v = (case v of None \<Rightarrow> [] | Some xs \<Rightarrow> xs)"

text \<open>\<^verbatim>\<open>list.find(a => a.id === id)\<close>: the first album of the list with that id.\<close>

definition find_album :: "string \<Rightarrow> album list \<Rightarrow> album option" where
  "find_album i list = find (\<lambda>a. album_id a = i) list"

section \<open>Navigation helpers\<close>

text \<open>
  \<^verbatim>\<open>getCurrentDirectory\<close>: the loop keeps \<^verbatim>\<open>current\<close> where an id is not found
  (\<^verbatim>\<open>if (folder) current = folder.subAlbums || []\<close>) and goes on with the next id.
\<close>

definition getCurrentDirectory_step :: "album list \<Rightarrow> string \<Rightarrow> album list" where
  "getCurrentDirectory_step current i =
     (case find_album i current of
        Some folder \<Rightarrow> or_empty (subAlbums folder)
      | None \<Rightarrow> current)"

definition getCurrentDirectory :: "album list \<Rightarrow> string list \<Rightarrow> album list" where
  "getCurrentDirectory albums currentPath = foldl getCurrentDirectory_step albums currentPath"

text \<open>
  \<^verbatim>\<open>getCurrentAlbum\<close>: returns \<^verbatim>\<open>null\<close> on the empty path; otherwise the loop
  overwrites \<^verbatim>\<open>current\<close> with the result of every \<^verbatim>\<open>find\<close>, found or not, and goes on
  in \<^verbatim>\<open>current?.subAlbums || []\<close>.  \<open>None\<close> is \<^verbatim>\<open>null\<close>/\<^verbatim>\<open>undefined\<close>.
\<close>

definition getCurrentAlbum_step :: "album option \<times> album list \<Rightarrow> string \<Rightarrow> album option \<times> album list" where
  "getCurrentAlbum_step st i =
     (let current = find_album i (snd st)
      in (current, case current of None \<Rightarrow> [] | Some c \<Rightarrow> or_empty (subAlbums c)))"

definition getCurrentAlbum :: "album list \<Rightarrow> string list \<Rightarrow> album option" where
  "getCurrentAlbum albums currentPath =
     (if currentPath = [] then None
      else fst (foldl getCurrentAlbum_step (None, albums) currentPath))"

text \<open>
  A photo of the grid: an image, tagged with a breadcrumb (\<^verbatim>\<open>folderName\<close>) in the
  nested view only.  \<^verbatim>\<open>getAllPhotosRecursive\<close> walks an album in pre-order.
\<close>

datatype photo = Photo (photo_image: image) (folderName: "string option")

fun getAllPhotosRecursive :: "album \<Rightarrow> string \<Rightarrow> photo list" where
  "getAllPhotosRecursive (Album i n im sub) pathName =
     (let currentName = (if pathName \<noteq> [] then pathName @ '' / '' @ n else n)
      in map (\<lambda>img. Photo img (Some currentName)) (or_empty im)
         @ (case sub of
              None \<Rightarrow> []
            | Some s \<Rightarrow> concat (map (\<lambda>a. getAllPhotosRecursive a currentName) s)))"

definition activePhotos :: "album list \<Rightarrow> string list \<Rightarrow> bool \<Rightarrow> photo list" where
  "activePhotos albums currentPath showAllNested =
     (case getCurrentAlbum albums currentPath of
        None \<Rightarrow> []
      | Some album \<Rightarrow>
          if showAllNested then getAllPhotosRecursive album []
          else map (\<lambda>img. Photo img None) (or_empty (images album)))"

text \<open>
  What the grid renders: the album cards are \<^verbatim>\<open>!showAllNested && currentItems.map(...)\<close>
  with \<^verbatim>\<open>currentItems = getCurrentDirectory()\<close>, the image cards are
  \<^verbatim>\<open>activePhotos.map(...)\<close>.
\<close>

definition visibleAlbums :: "album list \<Rightarrow> string list \<Rightarrow> bool \<Rightarrow> album list" where
  "visibleAlbums albums currentPath showAllNested =
     (if showAllNested then [] else getCurrentDirectory albums currentPath)"

subsection \<open>Path resolution as the specification words it\<close>

text \<open>
  A path resolves when each id is found among the sub-albums reached so far.
  \<open>resolve_prefix\<close> follows the path as far as it resolves and returns the album
  reached last (the deepest successfully resolved album); \<open>resolves\<close> says that every
  segment resolves.
\<close>

fun resolve_prefix :: "album option \<Rightarrow> album list \<Rightarrow> string list \<Rightarrow> album option" where
  "resolve_prefix reached list [] = reached"
| "resolve_prefix reached list (i # rest) =
     (case find_album i list of
        None \<Rightarrow> reached
      | Some a \<Rightarrow> resolve_prefix (Some a) (or_empty (subAlbums a)) rest)"

definition spec_currentAlbum :: "album list \<Rightarrow> string list \<Rightarrow> album option" where
  "spec_currentAlbum albums path = resolve_prefix None albums path"

fun resolves :: "album list \<Rightarrow> string list \<Rightarrow> bool" where
  "resolves list [] = True"
| "resolves list (i # rest) =
     (case find_album i list of
        None \<Rightarrow> False
      | Some a \<Rightarrow> resolves (or_empty (subAlbums a)) rest)"

text \<open>The last segment of a path resolves: the segments before it do, and it is found.\<close>

definition final_segment_unresolved :: "album list \<Rightarrow> string list \<Rightarrow> bool" where
  "final_segment_unresolved albums path =
     (path \<noteq> [] \<and> resolves albums (butlast path) \<and> \<not> resolves albums path)"

text \<open>
  The list of album cards a folder view is made of: the root list where no album has been
  reached, the sub-albums of the album reached otherwise.
\<close>

definition directory_of :: "album list \<Rightarrow> album option \<Rightarrow> album list" where
  "directory_of albums reached =
     (case reached of None \<Rightarrow> albums | Some a \<Rightarrow> or_empty (subAlbums a))"

subsection \<open>A small forest used in the examples\<close>

definition img1 :: image where
  "img1 = Image ''p1'' ''one.png'' ''blob:1'' ''1.0 KB''"

definition img2 :: image where
  "img2 = Image ''p2'' ''two.png'' ''blob:2'' ''2.0 KB''"

definition album_b :: album where
  "album_b = Album ''b'' ''Beach'' (Some [img2]) (Some [])"

definition album_a :: album where
  "album_a = Album ''a'' ''Alps'' (Some [img1]) (Some [album_b])"

definition forest0 :: "album list" where
  "forest0 = [album_a]"


section \<open>Tree rewrites\<close>

text \<open>
  The four handlers compute the next forest and hand it to \<^verbatim>\<open>persistChanges\<close>.  The
  functions of this section give the value of that next forest.  Three of the rewrites
  build new objects with spread syntax; \<^verbatim>\<open>deleteRecursive\<close> assigns to
  \<^verbatim>\<open>item.subAlbums\<close> instead, which is invisible in the value it returns and is
  modelled on an object store in a later section.
\<close>

text \<open>
  \<^verbatim>\<open>createAlbum\<close>, the callback of \<^verbatim>\<open>updateRecursive\<close>: an item whose id is the
  last id of the path gets the new album appended to its sub-albums and is not searched
  further; any other item with a \<^verbatim>\<open>subAlbums\<close> array is rebuilt around the rewritten
  array; an item without one is returned as it is.
\<close>

fun createAlbum_updateItem :: "string \<Rightarrow> album \<Rightarrow> album \<Rightarrow> album" where
  "createAlbum_updateItem target newAlbum (Album i n im sub) =
     (if i = target then Album i n im (Some (or_empty sub @ [newAlbum]))
      else (case sub of
              Some s \<Rightarrow> Album i n im (Some (map (createAlbum_updateItem target newAlbum) s))
            | None \<Rightarrow> Album i n im sub))"

definition createAlbum_updateRecursive :: "string \<Rightarrow> album \<Rightarrow> album list \<Rightarrow> album list" where
  "createAlbum_updateRecursive target newAlbum list =
     map (createAlbum_updateItem target newAlbum) list"

text \<open>\<^verbatim>\<open>handleFileUpload\<close>, the callback of its \<^verbatim>\<open>updateRecursive\<close>.\<close>

fun handleFileUpload_updateItem :: "string \<Rightarrow> image list \<Rightarrow> album \<Rightarrow> album" where
  "handleFileUpload_updateItem target newImages (Album i n im sub) =
     (if i = target then Album i n (Some (or_empty im @ newImages)) sub
      else (case sub of
              Some s \<Rightarrow> Album i n im (Some (map (handleFileUpload_updateItem target newImages) s))
            | None \<Rightarrow> Album i n im sub))"

definition handleFileUpload_updateRecursive :: "string \<Rightarrow> image list \<Rightarrow> album list \<Rightarrow> album list" where
  "handleFileUpload_updateRecursive target newImages list =
     map (handleFileUpload_updateItem target newImages) list"

text \<open>
  \<^verbatim>\<open>deleteAlbum\<close>: \<^verbatim>\<open>deleteRecursive\<close> is a \<^verbatim>\<open>filter\<close> whose predicate drops
  the item with the given id and, for an item it keeps, replaces the item's
  \<^verbatim>\<open>subAlbums\<close> by the filtered array when the field is set.
\<close>

fun deleteRecursive :: "string \<Rightarrow> album list \<Rightarrow> album list" where
  "deleteRecursive i [] = []"
| "deleteRecursive i (Album j n im sub # rest) =
     (if j = i then deleteRecursive i rest
      else Album j n im (case sub of None \<Rightarrow> None | Some s \<Rightarrow> Some (deleteRecursive i s))
           # deleteRecursive i rest)"

text \<open>
  \<^verbatim>\<open>deleteImage\<close>: every item is copied, its \<^verbatim>\<open>images\<close> array (when set) filtered
  and its \<^verbatim>\<open>subAlbums\<close> array (when set) rewritten.
\<close>

fun deleteImage_item :: "string \<Rightarrow> album \<Rightarrow> album" where
  "deleteImage_item imageId (Album i n im sub) =
     Album i n
       (case im of None \<Rightarrow> None
        | Some xs \<Rightarrow> Some (filter (\<lambda>img. image_id img \<noteq> imageId) xs))
       (case sub of None \<Rightarrow> None
        | Some s \<Rightarrow> Some (map (deleteImage_item imageId) s))"

definition deleteFromRecursive :: "string \<Rightarrow> album list \<Rightarrow> album list" where
  "deleteFromRecursive imageId list = map (deleteImage_item imageId) list"

subsection \<open>Observations on a forest\<close>

text \<open>All albums of a forest in pre-order, and the identifiers they carry.\<close>

fun albums_of :: "album \<Rightarrow> album list" where
  "albums_of (Album i n im sub) =
     Album i n im sub # (case sub of None \<Rightarrow> [] | Some s \<Rightarrow> concat (map albums_of s))"

definition all_albums :: "album list \<Rightarrow> album list" where
  "all_albums list = concat (map albums_of list)"

definition album_ids :: "album list \<Rightarrow> string list" where
  "album_ids list = map album_id (all_albums list)"

definition image_ids :: "album list \<Rightarrow> string list" where
  "image_ids list = concat (map (\<lambda>a. map image_id (or_empty (images a))) (all_albums list))"

text \<open>The nesting structure of a forest: ids and names, without the images.\<close>

datatype outline = Outline string string "outline list option"

fun outline_of :: "album \<Rightarrow> outline" where
  "outline_of (Album i n im sub) =
     Outline i n (case sub of None \<Rightarrow> None | Some s \<Rightarrow> Some (map outline_of s))"

section \<open>Reducer state and the remote store\<close>

datatype status = Idle | Loading | Succeeded | Failed

record album_state =
  items :: "album list"
  status :: status
  error :: "string option"
  syncing :: bool

definition initialState :: album_state where
  "initialState = \<lparr>items = [], status = Idle, error = None, syncing = False\<rparr>"

datatype action =
    FETCH_START
  | FETCH_SUCCESS "album list"
  | FETCH_ERROR string
  | SYNC_START
  | SYNC_END
  | SET_ITEMS "album list"

fun albumReducer :: "album_state \<Rightarrow> action \<Rightarrow> album_state" where
  "albumReducer st FETCH_START = st\<lparr>status := Loading\<rparr>"
| "albumReducer st (FETCH_SUCCESS payload) = st\<lparr>status := Succeeded, items := payload\<rparr>"
| "albumReducer st (FETCH_ERROR payload) = st\<lparr>status := Failed, error := Some payload\<rparr>"
| "albumReducer st SYNC_START = st\<lparr>syncing := True\<rparr>"
| "albumReducer st SYNC_END = st\<lparr>syncing := False\<rparr>"
| "albumReducer st (SET_ITEMS payload) = st\<lparr>items := payload\<rparr>"

text \<open>
  The remote store answers a request with a response, or the \<^verbatim>\<open>fetch\<close> promise
  rejects (no connection).  A response has a status code and a body; \<^verbatim>\<open>response.json()\<close>
  gives \<^verbatim>\<open>null\<close> or an array of records \<^verbatim>\<open>{ id, data }\<close>, or rejects when the body does
  not parse (\<open>None\<close>).
\<close>

datatype remote_record = RemoteRecord (record_id: string) (record_data: "album list option")

datatype json = JsonNull | JsonRecords "remote_record list"

datatype response = Rejected | Http (status_code: nat) (body: "json option")

datatype http_method = GET | PUT | POST

datatype payload = NoBody | DataBody "album list" | IdDataBody string "album list"

datatype request = Request (req_method: http_method) (req_url: string) (req_payload: payload)

datatype js_error = FetchRejected | HttpError nat | JsonRejected

definition API_BASE :: string where
  "API_BASE = ''https://694d4185ad0f8c8e6e203206.mockapi.io/albums''"

text \<open>\<^verbatim>\<open>response.ok\<close>: a status in the range 200 to 299.\<close>

definition response_ok :: "nat \<Rightarrow> bool" where
  "response_ok st = (200 \<le> st \<and> st \<le> 299)"

text \<open>
  The state of the component: the reducer state, the component's own state variables
  that the handlers read or write, and what the run has done to the outside so far: the
  requests issued (in order), the lines written with \<^verbatim>\<open>console.error\<close>, the delays waited
  in \<^verbatim>\<open>setTimeout\<close> (milliseconds) and the number of identifiers drawn from
  \<^verbatim>\<open>Math.random\<close>.
\<close>

record app =
  state :: album_state
  currentPath :: "string list"
  isCreatingAlbum :: bool
  newAlbumName :: string
  showAllNested :: bool
  requests :: "request list"
  console :: "string list"
  delays :: "nat list"
  draws :: nat

definition initialApp :: app where
  "initialApp = \<lparr>state = initialState, currentPath = [], isCreatingAlbum = False,
     newAlbumName = [], showAllNested = False, requests = [], console = [], delays = [],
     draws = 0\<rparr>"

definition dispatch :: "action \<Rightarrow> app \<Rightarrow> app" where
  "dispatch a s = s\<lparr>state := albumReducer (state s) a\<rparr>"

text \<open>
  The environment of a run: \<open>net k\<close> is the store's answer to the \<open>k\<close>-th request the
  run issues (counted from 0), \<open>rnd k\<close> the \<open>k\<close>-th identifier that
  \<^verbatim>\<open>Math.random().toString(36).substr(2, 9)\<close> yields.
\<close>

definition fetch :: "(nat \<Rightarrow> response) \<Rightarrow> request \<Rightarrow> request list \<Rightarrow> response \<times> request list" where
  "fetch net req log = (net (length log), log @ [req])"

text \<open>
  One attempt of \<^verbatim>\<open>fetchWithRetry\<close>, the body of its \<^verbatim>\<open>try\<close>: a 404 gives
  \<^verbatim>\<open>null\<close>, any other status outside 200..299 throws, and so does a rejected
  \<^verbatim>\<open>fetch\<close> or \<^verbatim>\<open>json()\<close>.
\<close>

definition fetch_attempt :: "response \<Rightarrow> js_error + json" where
  "fetch_attempt r =
     (case r of
        Rejected \<Rightarrow> Inl FetchRejected
      | Http st b \<Rightarrow>
          if st = 404 then Inr JsonNull
          else if \<not> response_ok st then Inl (HttpError st)
          else (case b of None \<Rightarrow> Inl JsonRejected | Some j \<Rightarrow> Inr j))"

text \<open>
  \<^verbatim>\<open>fetchWithRetry(url, options, retries, backoff)\<close>: on a failed attempt with
  \<^verbatim>\<open>retries > 0\<close> it waits \<^verbatim>\<open>backoff\<close> and calls itself with \<^verbatim>\<open>retries - 1\<close> and
  \<^verbatim>\<open>backoff * 2\<close>; with \<^verbatim>\<open>retries = 0\<close> it rethrows.  The result comes with the
  request log and the delays waited.
\<close>

fun fetchWithRetry ::
  "(nat \<Rightarrow> response) \<Rightarrow> string \<Rightarrow> nat \<Rightarrow> nat \<Rightarrow> request list
     \<Rightarrow> (js_error + json) \<times> request list \<times> nat list" where
  "fetchWithRetry net u 0 backoff log =
     (case fetch net (Request GET u NoBody) log of
        (response, log1) \<Rightarrow> (fetch_attempt response, log1, []))"
| "fetchWithRetry net u (Suc retries) backoff log =
     (case fetch net (Request GET u NoBody) log of
        (response, log1) \<Rightarrow>
          (case fetch_attempt response of
             Inr data \<Rightarrow> (Inr data, log1, [])
           | Inl err \<Rightarrow>
               (case fetchWithRetry net u retries (backoff * 2) log1 of
                  (res, log2, waits) \<Rightarrow> (res, log2, backoff # waits))))"

definition fetch_error_message :: string where
  "fetch_error_message =
     ''Failed to connect to backend storage. Please check your MockAPI endpoint.''"

text \<open>
  \<^verbatim>\<open>fetchAlbums\<close> (\<^verbatim>\<open>load\<close>): the default arguments of \<^verbatim>\<open>fetchWithRetry\<close> are
  \<^verbatim>\<open>retries = 3\<close> and \<^verbatim>\<open>backoff = 500\<close>.
\<close>

definition fetchAlbums :: "(nat \<Rightarrow> response) \<Rightarrow> app \<Rightarrow> app" where
  "fetchAlbums net s =
     (let s1 = dispatch FETCH_START s
      in case fetchWithRetry net API_BASE 3 500 (requests s1) of
           (res, log, waits) \<Rightarrow>
             (let s2 = s1\<lparr>requests := log, delays := delays s1 @ waits\<rparr>
              in case res of
                   Inl err \<Rightarrow>
                     dispatch (FETCH_ERROR fetch_error_message)
                       (s2\<lparr>console := console s2 @ [''Fetch Error:'']\<rparr>)
                 | Inr JsonNull \<Rightarrow> dispatch (FETCH_SUCCESS []) s2
                 | Inr (JsonRecords data) \<Rightarrow>
                     if data = [] then dispatch (FETCH_SUCCESS []) s2
                     else (case find (\<lambda>item. record_id item = ''1'') data of
                             None \<Rightarrow> dispatch (FETCH_SUCCESS []) s2
                           | Some remoteEntry \<Rightarrow>
                               dispatch (FETCH_SUCCESS (or_empty (record_data remoteEntry))) s2)))"

text \<open>
  \<^verbatim>\<open>syncToBackend\<close> (\<^verbatim>\<open>save\<close>): a PUT of \<^verbatim>\<open>{ data }\<close> to record 1; when the answer
  is not ok, a POST of \<^verbatim>\<open>{ id: "1", data }\<close> whose answer is not looked at.  A rejected
  request is caught and logged.  \<^verbatim>\<open>SYNC_END\<close> is dispatched in the \<^verbatim>\<open>finally\<close>.
  The handler that calls it does not wait for it; the model runs it to its end at once,
  which gives the same final state as long as no other handler runs in between.
\<close>

definition syncToBackend :: "(nat \<Rightarrow> response) \<Rightarrow> album list \<Rightarrow> app \<Rightarrow> app" where
  "syncToBackend net newAlbums s =
     (let s1 = dispatch SYNC_START s
      in case fetch net (Request PUT (API_BASE @ ''/1'') (DataBody newAlbums)) (requests s1) of
           (response, log1) \<Rightarrow>
             dispatch SYNC_END
               (case response of
                  Rejected \<Rightarrow>
                    s1\<lparr>requests := log1, console := console s1 @ [''Cloud sync failed:'']\<rparr>
                | Http st b \<Rightarrow>
                    if \<not> response_ok st then
                      (case fetch net (Request POST API_BASE (IdDataBody ''1'' newAlbums)) log1 of
                         (response2, log2) \<Rightarrow>
                           (case response2 of
                              Rejected \<Rightarrow>
                                s1\<lparr>requests := log2,
                                   console := console s1 @ [''Cloud sync failed:'']\<rparr>
                            | Http st2 b2 \<Rightarrow> s1\<lparr>requests := log2\<rparr>))
                    else s1\<lparr>requests := log1\<rparr>))"

definition persistChanges :: "(nat \<Rightarrow> response) \<Rightarrow> album list \<Rightarrow> app \<Rightarrow> app" where
  "persistChanges net newAlbums s = syncToBackend net newAlbums (dispatch (SET_ITEMS newAlbums) s)"

section \<open>The handlers\<close>

text \<open>
  \<^verbatim>\<open>String.prototype.trim\<close> removes white space and line terminators from both ends.
  Of JavaScript's white space the characters of the Latin-1 range are modelled: tab, line
  feed, vertical tab, form feed, carriage return, space and no-break space.
\<close>

definition is_ws :: "char \<Rightarrow> bool" where
  "is_ws c = (c \<in> set [CHR 0x09, CHR 0x0A, CHR 0x0B, CHR 0x0C, CHR 0x0D, CHR 0x20, CHR 0xA0])"

definition trim :: "string \<Rightarrow> string" where
  "trim s = rev (dropWhile is_ws (rev (dropWhile is_ws s)))"

text \<open>
  \<^verbatim>\<open>createAlbum\<close>: nothing happens when the trimmed name is empty.  Otherwise the new
  album gets a drawn identifier and the name as typed, and is appended at the root (empty
  path) or under the album whose id is the last of the path.
\<close>

definition createAlbum :: "(nat \<Rightarrow> string) \<Rightarrow> (nat \<Rightarrow> response) \<Rightarrow> app \<Rightarrow> app" where
  "createAlbum rnd net s =
     (if trim (newAlbumName s) = [] then s
      else
        (let newAlbum = Album (rnd (draws s)) (newAlbumName s) (Some []) (Some []);
             albums = items (state s);
             nextAlbums =
               (if currentPath s = [] then albums @ [newAlbum]
                else createAlbum_updateRecursive (last (currentPath s)) newAlbum albums)
         in (persistChanges net nextAlbums (s\<lparr>draws := Suc (draws s)\<rparr>))
              \<lparr>newAlbumName := [], isCreatingAlbum := False\<rparr>))"

text \<open>
  \<^verbatim>\<open>deleteAlbum\<close> and \<^verbatim>\<open>deleteImage\<close> hand the rewritten forest to
  \<^verbatim>\<open>persistChanges\<close>.
\<close>

definition deleteAlbum :: "(nat \<Rightarrow> response) \<Rightarrow> string \<Rightarrow> app \<Rightarrow> app" where
  "deleteAlbum net i s = persistChanges net (deleteRecursive i (items (state s))) s"

definition deleteImage :: "(nat \<Rightarrow> response) \<Rightarrow> string \<Rightarrow> app \<Rightarrow> app" where
  "deleteImage net imageId s = persistChanges net (deleteFromRecursive imageId (items (state s))) s"

text \<open>
  A selected file, with what the browser gives for it: its name, its MIME type, the
  object URL \<^verbatim>\<open>URL.createObjectURL(file)\<close> and the label
  \<^verbatim>\<open>(file.size / 1024).toFixed(1) + ' KB'\<close> (floating-point formatting is not modelled;
  the label is taken as given).
\<close>

datatype js_file = File (file_name: string) (file_type: string) (file_url: string)
  (file_size_label: string)

text \<open>\<^verbatim>\<open>files.map(file => ({ id: ..., ... }))\<close>: one identifier is drawn per file, in order.\<close>

fun newImages_from :: "(nat \<Rightarrow> string) \<Rightarrow> nat \<Rightarrow> js_file list \<Rightarrow> image list" where
  "newImages_from rnd k [] = []"
| "newImages_from rnd k (f # fs) =
     Image (rnd k) (file_name f) (file_url f) (file_size_label f) # newImages_from rnd (Suc k) fs"

text \<open>
  \<^verbatim>\<open>handleFileUpload\<close>: nothing happens without files or at the root (empty path).
\<close>

definition handleFileUpload :: "(nat \<Rightarrow> string) \<Rightarrow> (nat \<Rightarrow> response) \<Rightarrow> js_file list \<Rightarrow> app \<Rightarrow> app" where
  "handleFileUpload rnd net files s =
     (if files = [] \<or> currentPath s = [] then s
      else
        (let newImages = newImages_from rnd (draws s) files
         in persistChanges net
              (handleFileUpload_updateRecursive (last (currentPath s)) newImages (items (state s)))
              (s\<lparr>draws := draws s + length files\<rparr>)))"

section \<open>Environments and predicates used in the statements\<close>

text \<open>
  An attempt of \<^verbatim>\<open>fetchWithRetry\<close> fails when its \<^verbatim>\<open>try\<close> block throws.  A server
  error is a response whose status is neither 404 nor in 200..299.
\<close>

definition attempt_fails :: "response \<Rightarrow> bool" where
  "attempt_fails r = (case fetch_attempt r of Inl err \<Rightarrow> True | Inr data \<Rightarrow> False)"

definition server_error :: "response \<Rightarrow> bool" where
  "server_error r =
     (case r of Rejected \<Rightarrow> False | Http st b \<Rightarrow> st \<noteq> 404 \<and> \<not> response_ok st)"

text \<open>A store that answers 500 three times and then serves \<open>forest0\<close> in record 1.\<close>

definition net_three_failures :: "nat \<Rightarrow> response" where
  "net_three_failures k =
     (if k < 3 then Http 500 None
      else Http 200 (Some (JsonRecords [RemoteRecord ''1'' (Some forest0)])))"

text \<open>A store that answers 500 to every request.\<close>

definition net_down :: "nat \<Rightarrow> response" where
  "net_down k = Http 500 None"

text \<open>A generator of identifiers that never repeats: \<open>x\<close>, \<open>xx\<close>, \<open>xxx\<close>, ...\<close>

definition rnd_fresh :: "nat \<Rightarrow> string" where
  "rnd_fresh k = replicate (Suc k) CHR ''x''"

text \<open>A generator that yields the same identifier at every draw.\<close>

definition rnd_same :: "nat \<Rightarrow> string" where
  "rnd_same k = ''x''"

text \<open>
  What one album shows of its images: its id with its \<^verbatim>\<open>images\<close> field; and what it
  is expected to show after the images \<open>new\<close> have been inserted into the album with id
  \<open>t\<close>: there the images it had (a missing list read as empty, as
  \<^verbatim>\<open>item.images || []\<close> does) followed by the new ones, elsewhere the field as it was.
\<close>

definition listing :: "album \<Rightarrow> string \<times> image list option" where
  "listing a = (album_id a, images a)"

definition grown :: "string \<Rightarrow> image list \<Rightarrow> album \<Rightarrow> string \<times> image list option" where
  "grown t new a =
     (album_id a, if album_id a = t then Some (or_empty (images a) @ new) else images a)"

text \<open>A component that has loaded \<open>forest0\<close>, and a file to upload.\<close>

definition app0 :: app where
  "app0 = initialApp\<lparr>state := \<lparr>items = forest0, status = Succeeded, error = None,
                                  syncing = False\<rparr>\<rparr>"

definition file3 :: js_file where
  "file3 = File ''three.png'' ''image/png'' ''blob:3'' ''3.0 KB''"

section \<open>The rewrites on an object store\<close>

text \<open>
  Album objects are shared by reference between the forest a handler reads and the
  forest it builds, and \<^verbatim>\<open>deleteRecursive\<close> assigns to a field of the objects it
  visits.  To see what a handler does to its input, objects live in a store: an address is
  an index into the store, an album object holds its images by value and its sub-albums
  as an array of addresses.  Arrays are kept by value, since none of the four handlers
  writes into an array it did not create itself (\<^verbatim>\<open>filter\<close>, \<^verbatim>\<open>map\<close> and the
  spread \<^verbatim>\<open>[...albums]\<close> create arrays).

  The recursion follows references read from the store, so the functions take a bound on
  the nesting depth they may descend and return \<open>None\<close> when it is exceeded or when a
  reference points outside the store.
\<close>

type_synonym addr = nat

record album_obj =
  obj_id :: string
  obj_name :: string
  obj_images :: "image list option"
  obj_subAlbums :: "addr list option"

type_synonym store = "album_obj list"

text \<open>The forest that is seen from an array of addresses.\<close>

fun forest_of :: "nat \<Rightarrow> store \<Rightarrow> addr list \<Rightarrow> album list option" where
  "forest_of 0 h as = None"
| "forest_of (Suc d) h [] = Some []"
| "forest_of (Suc d) h (a # rest) =
     (if length h \<le> a then None
      else
        (case (case obj_subAlbums (h ! a) of
                 None \<Rightarrow> Some None
               | Some s \<Rightarrow> (case forest_of d h s of None \<Rightarrow> None | Some t \<Rightarrow> Some (Some t))) of
           None \<Rightarrow> None
         | Some sub \<Rightarrow>
             (case forest_of (Suc d) h rest of
                None \<Rightarrow> None
              | Some ts \<Rightarrow>
                  Some (Album (obj_id (h ! a)) (obj_name (h ! a)) (obj_images (h ! a)) sub # ts))))"

text \<open>
  \<^verbatim>\<open>deleteRecursive\<close> on the store.  The predicate of \<^verbatim>\<open>filter\<close> runs on the
  items in order: an item with the given id is dropped; any other item with a
  \<^verbatim>\<open>subAlbums\<close> array has the field of the visited object itself overwritten
  (\<^verbatim>\<open>item.subAlbums = deleteRecursive(item.subAlbums)\<close>) and is kept.
\<close>

fun deleteRecursive_store :: "nat \<Rightarrow> string \<Rightarrow> addr list \<Rightarrow> store \<Rightarrow> (addr list \<times> store) option" where
  "deleteRecursive_store 0 i as h = None"
| "deleteRecursive_store (Suc d) i [] h = Some ([], h)"
| "deleteRecursive_store (Suc d) i (a # rest) h =
     (if length h \<le> a then None
      else if obj_id (h ! a) = i then deleteRecursive_store (Suc d) i rest h
      else
        (case (case obj_subAlbums (h ! a) of
                 None \<Rightarrow> Some h
               | Some s \<Rightarrow>
                   (case deleteRecursive_store d i s h of
                      None \<Rightarrow> None
                    | Some (s', h1) \<Rightarrow> Some (h1[a := (h1 ! a)\<lparr>obj_subAlbums := Some s'\<rparr>]))) of
           None \<Rightarrow> None
         | Some h2 \<Rightarrow>
             (case deleteRecursive_store (Suc d) i rest h2 of
                None \<Rightarrow> None
              | Some (kept, h3) \<Rightarrow> Some (a # kept, h3))))"

text \<open>
  \<^verbatim>\<open>deleteAlbum\<close> passes a copy of the root array (\<^verbatim>\<open>[...albums]\<close>); the copy has
  the same elements.
\<close>

definition deleteAlbum_store :: "nat \<Rightarrow> string \<Rightarrow> addr list \<Rightarrow> store \<Rightarrow> (addr list \<times> store) option" where
  "deleteAlbum_store d i albums h = deleteRecursive_store d i albums h"

text \<open>
  \<^verbatim>\<open>deleteFromRecursive\<close> (of \<^verbatim>\<open>deleteImage\<close>) on the store.  The callback of
  \<^verbatim>\<open>map\<close> first copies the item into a new object (\<^verbatim>\<open>const newItem = { ...item }\<close>,
  allocated at the end of the store) and assigns to the fields of the copy only.
\<close>

fun deleteFromRecursive_store :: "nat \<Rightarrow> string \<Rightarrow> addr list \<Rightarrow> store \<Rightarrow> (addr list \<times> store) option" where
  "deleteFromRecursive_store 0 x as h = None"
| "deleteFromRecursive_store (Suc d) x [] h = Some ([], h)"
| "deleteFromRecursive_store (Suc d) x (a # rest) h =
     (if length h \<le> a then None
      else
        (let newItem = length h;
             h1 = h @ [h ! a];
             h2 = (case obj_images (h1 ! newItem) of
                     None \<Rightarrow> h1
                   | Some xs \<Rightarrow>
                       h1[newItem := (h1 ! newItem)
                            \<lparr>obj_images := Some (filter (\<lambda>img. image_id img \<noteq> x) xs)\<rparr>])
         in case (case obj_subAlbums (h2 ! newItem) of
                    None \<Rightarrow> Some h2
                  | Some s \<Rightarrow>
                      (case deleteFromRecursive_store d x s h2 of
                         None \<Rightarrow> None
                       | Some (s', h3) \<Rightarrow>
                           Some (h3[newItem := (h3 ! newItem)\<lparr>obj_subAlbums := Some s'\<rparr>]))) of
              None \<Rightarrow> None
            | Some h4 \<Rightarrow>
                (case deleteFromRecursive_store (Suc d) x rest h4 of
                   None \<Rightarrow> None
                 | Some (mapped, h5) \<Rightarrow> Some (newItem # mapped, h5))))"

definition deleteImage_store :: "nat \<Rightarrow> string \<Rightarrow> addr list \<Rightarrow> store \<Rightarrow> (addr list \<times> store) option" where
  "deleteImage_store d x albums h = deleteFromRecursive_store d x albums h"

text \<open>\<open>forest0\<close> in a store: album \<open>a\<close> at address 0, its sub-album \<open>b\<close> at address 1.\<close>

definition store0 :: store where
  "store0 =
     [\<lparr>obj_id = ''a'', obj_name = ''Alps'', obj_images = Some [img1], obj_subAlbums = Some [1]\<rparr>,
      \<lparr>obj_id = ''b'', obj_name = ''Beach'', obj_images = Some [img2], obj_subAlbums = Some []\<rparr>]"

text \<open>
  A store extends another when it has the same objects at the same addresses, and
  possibly new ones behind them.
\<close>

definition extends :: "store \<Rightarrow> store \<Rightarrow> bool" where
  "extends h h' = (length h \<le> length h' \<and> take (length h) h' = h)"

text \<open>
  The addresses of the objects a forest is made of, in pre-order.  A forest is
  tree-shaped when no address occurs twice among them, as in a forest parsed from JSON
  or built by the handlers.
\<close>

fun addrs_of :: "nat \<Rightarrow> store \<Rightarrow> addr list \<Rightarrow> addr list" where
  "addrs_of 0 h as = []"
| "addrs_of (Suc d) h [] = []"
| "addrs_of (Suc d) h (a # rest) =
     a # (case obj_subAlbums (h ! a) of None \<Rightarrow> [] | Some s \<Rightarrow> addrs_of d h s)
       @ addrs_of (Suc d) h rest"

text \<open>
  What \<^verbatim>\<open>deleteRecursive\<close> on the store is expected to do on an array \<open>as\<close> that shows
  the forest \<open>T\<close>: it returns, the store keeps its size, objects outside the forest are
  as before, the returned array shows \<open>deleteRecursive i T\<close>, and it is made of objects
  of the given forest.
\<close>

definition del_ok ::
  "nat \<Rightarrow> string \<Rightarrow> addr list \<Rightarrow> store \<Rightarrow> album list \<Rightarrow> (addr list \<times> store) option \<Rightarrow> bool" where
  "del_ok d i as h T res =
     (case res of
        None \<Rightarrow> False
      | Some (as', h') \<Rightarrow>
          length h' = length h
          \<and> (\<forall>b. b \<notin> set (addrs_of d h as) \<longrightarrow> h' ! b = h ! b)
          \<and> forest_of d h' as' = Some (deleteRecursive i T)
          \<and> set (addrs_of d h' as') \<subseteq> set (addrs_of d h as))"

text \<open>\<open>store0\<close> after the object at address 0 has lost its sub-album.\<close>

definition store1 :: store where
  "store1 =
     [\<lparr>obj_id = ''a'', obj_name = ''Alps'', obj_images = Some [img1], obj_subAlbums = Some []\<rparr>,
      \<lparr>obj_id = ''b'', obj_name = ''Beach'', obj_images = Some [img2], obj_subAlbums = Some []\<rparr>]"

section \<open>Folder drop\<close>

text \<open>
  What the browser hands to \<^verbatim>\<open>handleDrop\<close>: a list of items, each with a kind and
  (through \<^verbatim>\<open>webkitGetAsEntry\<close>) an entry or \<^verbatim>\<open>null\<close>.  An entry is a file, a
  directory with the child entries its reader yields, or neither.
\<close>

datatype entry = FileEntry js_file | DirectoryEntry string "entry list" | OtherEntry

datatype drop_item = DropItem (item_kind: string) (item_entry: "entry option")

text \<open>\<^verbatim>\<open>file.type.startsWith('image/')\<close>\<close>

definition is_image_type :: "string \<Rightarrow> bool" where
  "is_image_type t = (take 6 t = ''image/'')"

text \<open>The index of the first element that satisfies a predicate.\<close>

fun first_index :: "('a \<Rightarrow> bool) \<Rightarrow> 'a list \<Rightarrow> nat option" where
  "first_index P [] = None"
| "first_index P (x # xs) = (if P x then Some 0 else map_option Suc (first_index P xs))"

text \<open>
  \<^verbatim>\<open>processEntry(entry, targetList)\<close> writes into the target node, which is an album
  of the deep copy \<^verbatim>\<open>nextAlbums\<close> or the root node \<^verbatim>\<open>{ subAlbums: nextAlbums, images: [] }\<close>.
  No object of the copy is shared, so writing into a node is replacing its value; the
  function returns the new value of the target.  It reads only the \<^verbatim>\<open>images\<close> and
  \<^verbatim>\<open>subAlbums\<close> fields of the target.  A file of an image type is pushed as a new
  image with a drawn id.  A directory is looked up among the target's sub-albums by
  name; when there is none, a new album with a drawn id is pushed; the children are then
  processed into that folder.  The second component of the result is the number of
  identifiers drawn so far; the first is \<open>None\<close> when a \<^verbatim>\<open>TypeError\<close> was thrown
  (\<^verbatim>\<open>push\<close> or \<^verbatim>\<open>find\<close> on a missing array).
\<close>

fun processEntry :: "(nat \<Rightarrow> string) \<Rightarrow> entry \<Rightarrow> album \<Rightarrow> nat \<Rightarrow> album option \<times> nat"
  and processEntries :: "(nat \<Rightarrow> string) \<Rightarrow> entry list \<Rightarrow> album \<Rightarrow> nat \<Rightarrow> album option \<times> nat" where
  "processEntry rnd (FileEntry f) (Album i n im sub) k =
     (if is_image_type (file_type f) then
        (case im of
           None \<Rightarrow> (None, k)
         | Some xs \<Rightarrow>
             (Some (Album i n
                (Some (xs @ [Image (rnd k) (file_name f) (file_url f) (file_size_label f)])) sub),
              Suc k))
      else (Some (Album i n im sub), k))"
| "processEntry rnd (DirectoryEntry name entries) (Album i n im sub) k =
     (case sub of
        None \<Rightarrow> (None, k)
      | Some ss \<Rightarrow>
          (case first_index (\<lambda>f. album_name f = name) ss of
             Some j \<Rightarrow>
               (case processEntries rnd entries (ss ! j) k of
                  (None, k') \<Rightarrow> (None, k')
                | (Some folder, k') \<Rightarrow> (Some (Album i n im (Some (ss[j := folder]))), k'))
           | None \<Rightarrow>
               (case processEntries rnd entries (Album (rnd k) name (Some []) (Some [])) (Suc k) of
                  (None, k') \<Rightarrow> (None, k')
                | (Some folder, k') \<Rightarrow> (Some (Album i n im (Some (ss @ [folder]))), k'))))"
| "processEntry rnd OtherEntry target k = (Some target, k)"
| "processEntries rnd [] folder k = (Some folder, k)"
| "processEntries rnd (e # es) folder k =
     (case processEntry rnd e folder k of
        (None, k') \<Rightarrow> (None, k')
      | (Some folder', k') \<Rightarrow> processEntries rnd es folder' k')"

text \<open>The loop of \<^verbatim>\<open>handleDrop\<close> over the dropped items.\<close>

fun processItems :: "(nat \<Rightarrow> string) \<Rightarrow> drop_item list \<Rightarrow> album \<Rightarrow> nat \<Rightarrow> album option \<times> nat" where
  "processItems rnd [] target k = (Some target, k)"
| "processItems rnd (item # rest) target k =
     (if item_kind item = ''file'' then
        (case item_entry item of
           None \<Rightarrow> processItems rnd rest target k
         | Some e \<Rightarrow>
             (case processEntry rnd e target k of
                (None, k') \<Rightarrow> (None, k')
              | (Some target', k') \<Rightarrow> processItems rnd rest target' k'))
      else processItems rnd rest target k)"

text \<open>
  A node of \<^verbatim>\<open>nextAlbums\<close> is addressed by its position: the indices to follow from
  the root array.  \<open>album_at\<close> reads the album at a position, \<open>replace_at\<close> writes one.
\<close>

fun album_at :: "album list \<Rightarrow> nat list \<Rightarrow> album option" where
  "album_at list [] = None"
| "album_at list [j] = (if j < length list then Some (list ! j) else None)"
| "album_at list (j # p) =
     (if j < length list then
        (case subAlbums (list ! j) of None \<Rightarrow> None | Some s \<Rightarrow> album_at s p)
      else None)"

fun replace_at :: "nat list \<Rightarrow> album \<Rightarrow> album list \<Rightarrow> album list" where
  "replace_at [] new list = list"
| "replace_at [j] new list = list[j := new]"
| "replace_at (j # p) new list =
     list[j := Album (album_id (list ! j)) (album_name (list ! j)) (images (list ! j))
                (map_option (replace_at p new) (subAlbums (list ! j)))]"

text \<open>
  The search for the target node: \<^verbatim>\<open>found\<close> is overwritten by every \<^verbatim>\<open>find\<close>, and
  \<^verbatim>\<open>current\<close> moves to \<^verbatim>\<open>found.subAlbums\<close> (possibly missing) when something was
  found.  \<open>pos\<close> is the position of the album whose sub-albums \<^verbatim>\<open>current\<close> is (empty for
  the root array).  The result is \<open>None\<close> when \<^verbatim>\<open>current.find\<close> throws on a missing
  array, otherwise the position of \<^verbatim>\<open>found\<close>, if any.
\<close>

fun find_target ::
  "string list \<Rightarrow> album list option \<Rightarrow> nat list \<Rightarrow> nat list option \<Rightarrow> nat list option option" where
  "find_target [] current pos found = Some found"
| "find_target (i # rest) current pos found =
     (case current of
        None \<Rightarrow> None
      | Some list \<Rightarrow>
          (case first_index (\<lambda>a. album_id a = i) list of
             None \<Rightarrow> find_target rest (Some list) pos None
           | Some j \<Rightarrow> find_target rest (subAlbums (list ! j)) (pos @ [j]) (Some (pos @ [j]))))"

text \<open>
  \<^verbatim>\<open>handleDrop\<close>: nothing happens without items.  \<^verbatim>\<open>nextAlbums\<close> is a deep copy of
  the forest (a JSON round trip, the identity on the values of the model).  The target
  node is the album found for the path, or the root node (whose own images are thrown
  away) when the path is empty or its last id was not found.  When a \<^verbatim>\<open>TypeError\<close> is
  thrown, the handler ends before \<^verbatim>\<open>persistChanges\<close>, and only the draws are kept.
\<close>

definition handleDrop ::
  "(nat \<Rightarrow> string) \<Rightarrow> (nat \<Rightarrow> response) \<Rightarrow> drop_item list option \<Rightarrow> app \<Rightarrow> app" where
  "handleDrop rnd net dropped s =
     (case dropped of
        None \<Rightarrow> s
      | Some dropped_items \<Rightarrow>
          (let nextAlbums = items (state s)
           in case find_target (currentPath s) (Some nextAlbums) [] None of
                None \<Rightarrow> s
              | Some None \<Rightarrow>
                  (case processItems rnd dropped_items
                          (Album [] [] (Some []) (Some nextAlbums)) (draws s) of
                     (None, k) \<Rightarrow> s\<lparr>draws := k\<rparr>
                   | (Some root, k) \<Rightarrow>
                       persistChanges net (or_empty (subAlbums root)) (s\<lparr>draws := k\<rparr>))
              | Some (Some p) \<Rightarrow>
                  (case album_at nextAlbums p of
                     None \<Rightarrow> s
                   | Some targetNode \<Rightarrow>
                       (case processItems rnd dropped_items targetNode (draws s) of
                          (None, k) \<Rightarrow> s\<lparr>draws := k\<rparr>
                        | (Some targetNode', k) \<Rightarrow>
                            persistChanges net (replace_at p targetNode' nextAlbums)
                              (s\<lparr>draws := k\<rparr>)))))"

section \<open>Reachable states and unique identifiers\<close>

text \<open>
  The states the component reaches from the empty forest, for a given generator of
  identifiers: by navigation to any path, typing any folder name, and the five handlers
  that rewrite the forest, with any answers of the remote store.
\<close>

inductive reachable :: "(nat \<Rightarrow> string) \<Rightarrow> app \<Rightarrow> bool" for rnd :: "nat \<Rightarrow> string" where
  start: "reachable rnd initialApp"
| navigate: "reachable rnd s \<Longrightarrow> reachable rnd (s\<lparr>currentPath := p\<rparr>)"
| type_name: "reachable rnd s \<Longrightarrow> reachable rnd (s\<lparr>newAlbumName := n, isCreatingAlbum := True\<rparr>)"
| create_album: "reachable rnd s \<Longrightarrow> reachable rnd (createAlbum rnd net s)"
| upload: "reachable rnd s \<Longrightarrow> reachable rnd (handleFileUpload rnd net files s)"
| drop: "reachable rnd s \<Longrightarrow> reachable rnd (handleDrop rnd net dropped s)"
| delete_album: "reachable rnd s \<Longrightarrow> reachable rnd (deleteAlbum net i s)"
| delete_image: "reachable rnd s \<Longrightarrow> reachable rnd (deleteImage net x s)"

text \<open>All identifiers of a forest: those of its albums, then those of its images.\<close>

definition forest_ids :: "album list \<Rightarrow> string list" where
  "forest_ids T = album_ids T @ image_ids T"

text \<open>The identifiers of an album and of everything below it, as a multiset.\<close>

fun ids_of :: "album \<Rightarrow> string multiset" where
  "ids_of (Album i n im sub) =
     {#i#} + mset (map image_id (or_empty im))
       + (case sub of None \<Rightarrow> {#} | Some s \<Rightarrow> sum_list (map ids_of s))"

definition ids_in :: "album list \<Rightarrow> string multiset" where
  "ids_in T = sum_list (map ids_of T)"

text \<open>
  The identifiers an album list carries itself (not those below it): the ids of the
  albums and of their images.
\<close>

definition listed :: "album list \<Rightarrow> string multiset" where
  "listed bs = mset (map album_id bs)
     + mset (concat (map (\<lambda>b. map image_id (or_empty (images b))) bs))"

text \<open>The identifiers drawn from the generator at the draws \<open>k\<close> up to \<open>k' - 1\<close>.\<close>

definition drawn :: "(nat \<Rightarrow> string) \<Rightarrow> nat \<Rightarrow> nat \<Rightarrow> string multiset" where
  "drawn rnd k k' = mset (map rnd [k..<k'])"

text \<open>
  What processing entries into a target does to identifiers: the counter of draws does
  not go back, and a target that comes out has its id and carries the identifiers it had
  plus exactly the ones drawn meanwhile.
\<close>

definition entry_ok ::
  "(nat \<Rightarrow> string) \<Rightarrow> album \<Rightarrow> nat \<Rightarrow> album option \<times> nat \<Rightarrow> bool" where
  "entry_ok rnd target k res =
     (k \<le> snd res \<and>
      (case fst res of
         None \<Rightarrow> True
       | Some t' \<Rightarrow> album_id t' = album_id target
                   \<and> ids_of t' = ids_of target + drawn rnd k (snd res)))"

text \<open>The array at a position: the root array, or the sub-albums of the album there.\<close>

definition array_at :: "album list \<Rightarrow> nat list \<Rightarrow> album list option" where
  "array_at T pos = (if pos = [] then Some T
                     else (case album_at T pos of None \<Rightarrow> None | Some a \<Rightarrow> subAlbums a))"

text \<open>The invariant: every identifier of the forest is one of the draws made so far.\<close>

definition ids_drawn :: "(nat \<Rightarrow> string) \<Rightarrow> app \<Rightarrow> bool" where
  "ids_drawn rnd s = (ids_in (items (state s)) \<subseteq># drawn rnd 0 (draws s))"

text \<open>
  Two runs of the component: the folder \<open>A\<close> is created at the root, then the folder
  \<open>B\<close>; and the folder \<open>A\<close> is created, entered, and a directory \<open>D\<close> holding one image
  file is dropped on it.
\<close>

definition two_folders :: "(nat \<Rightarrow> string) \<Rightarrow> app" where
  "two_folders rnd =
     createAlbum rnd net_down
       ((createAlbum rnd net_down (initialApp\<lparr>newAlbumName := ''A'', isCreatingAlbum := True\<rparr>))
          \<lparr>newAlbumName := ''B'', isCreatingAlbum := True\<rparr>)"

definition folder_dropped :: "(nat \<Rightarrow> string) \<Rightarrow> app" where
  "folder_dropped rnd =
     handleDrop rnd net_down
       (Some [DropItem ''file'' (Some (DirectoryEntry ''D'' [FileEntry file3]))])
       ((createAlbum rnd net_down (initialApp\<lparr>newAlbumName := ''A'', isCreatingAlbum := True\<rparr>))
          \<lparr>currentPath := [rnd 0]\<rparr>)"

section \<open>Navigation: resolution of the path\<close>

lemma getCurrentAlbum_fold_unresolved:
  "fst (foldl getCurrentAlbum_step (None, []) path) = None
   \<and> snd (foldl getCurrentAlbum_step (None, []) path) = []"
proof (induction path rule: rev_induct)
  case Nil
  show ?case by simp
next
  case (snoc i path)
  then show ?case
    by (simp add: getCurrentAlbum_step_def find_album_def prod_eq_iff)
qed

lemma getCurrentAlbum_fold:
  "path \<noteq> [] \<Longrightarrow>
   fst (foldl getCurrentAlbum_step (cur, list) path) =
     (if resolves list path then resolve_prefix cur list path else None)"
proof (induction path arbitrary: cur list)
  case Nil
  then show ?case by simp
next
  case (Cons i rest)
  show ?case
  proof (cases "find_album i list")
    case None
    have "foldl getCurrentAlbum_step (cur, list) (i # rest)
            = foldl getCurrentAlbum_step (None, []) rest"
      using None by (simp add: getCurrentAlbum_step_def)
    then show ?thesis
      using None getCurrentAlbum_fold_unresolved [of rest] by simp
  next
    case (Some a)
    have step: "foldl getCurrentAlbum_step (cur, list) (i # rest)
            = foldl getCurrentAlbum_step (Some a, or_empty (subAlbums a)) rest"
      using Some by (simp add: getCurrentAlbum_step_def)
    show ?thesis
    proof (cases "rest = []")
      case True
      then show ?thesis using Some by (simp add: getCurrentAlbum_step_def)
    next
      case False
      then show ?thesis
        using Cons.IH [OF False, of "Some a" "or_empty (subAlbums a)"] Some step by simp
    qed
  qed
qed

lemma getCurrentAlbum_resolution:
  "getCurrentAlbum albums path =
     (if path \<noteq> [] \<and> resolves albums path then spec_currentAlbum albums path else None)"
  using getCurrentAlbum_fold [of path None albums]
  by (simp add: getCurrentAlbum_def spec_currentAlbum_def)

text \<open>
  C2 (as stated, refuted).  On \<open>forest0\<close> and the path \<open>a, zzz\<close> the prefix \<open>a\<close>
  resolves to the album \<open>a\<close> and the segment \<open>zzz\<close> does not resolve; the deepest
  successfully resolved album is \<open>a\<close>, yet \<open>getCurrentAlbum\<close> returns no album although
  the path is not empty.
\<close>

theorem C2_currentAlbum_counterexample:
  "getCurrentAlbum forest0 [''a'', ''zzz''] = None
   \<and> spec_currentAlbum forest0 [''a'', ''zzz''] = Some album_a
   \<and> getCurrentAlbum forest0 [''a''] = Some album_a"
  by (simp add: getCurrentAlbum_def getCurrentAlbum_step_def spec_currentAlbum_def
        find_album_def forest0_def album_a_def album_b_def or_empty_def)

text \<open>
  C2 (amended).  \<open>getCurrentAlbum\<close> returns the deepest resolved album exactly when the
  path is not empty and every one of its segments resolves; it returns no album when the
  path is empty and also when some segment does not resolve.
\<close>

theorem C2_currentAlbum_strict:
  "getCurrentAlbum albums path =
     (if path \<noteq> [] \<and> resolves albums path then spec_currentAlbum albums path else None)"
  by (rule getCurrentAlbum_resolution)

theorem C2_currentAlbum_strict_witness:
  "getCurrentAlbum forest0 [''a'', ''b''] = Some album_b
   \<and> getCurrentAlbum forest0 [''b''] = None"
  using C2_currentAlbum_strict [of forest0 "[''a'', ''b'']"]
    C2_currentAlbum_strict [of forest0 "[''b'']"]
  by (simp add: spec_currentAlbum_def find_album_def forest0_def album_a_def album_b_def
        or_empty_def)

section \<open>Navigation: the view of an unresolved path\<close>

lemma resolves_snoc:
  "resolves list (p @ [i]) =
     (resolves list p \<and> find_album i (foldl getCurrentDirectory_step list p) \<noteq> None)"
proof (induction p arbitrary: list)
  case Nil
  show ?case by (simp split: option.splits)
next
  case (Cons j p)
  show ?case
    by (cases "find_album j list") (simp_all add: getCurrentDirectory_step_def Cons.IH)
qed

lemma getCurrentDirectory_resolved:
  "resolves list p \<Longrightarrow> directory_of albums cur = list \<Longrightarrow>
   foldl getCurrentDirectory_step list p = directory_of albums (resolve_prefix cur list p)"
proof (induction p arbitrary: list cur)
  case Nil
  then show ?case by simp
next
  case (Cons j p)
  from Cons.prems(1) obtain a where a: "find_album j list = Some a"
    and r: "resolves (or_empty (subAlbums a)) p"
    by (auto split: option.splits)
  have "directory_of albums (Some a) = or_empty (subAlbums a)"
    by (simp add: directory_of_def)
  from Cons.IH [OF r this] a show ?case
    by (simp add: getCurrentDirectory_step_def)
qed

text \<open>
  C3 (as stated, refuted).  On \<open>forest0\<close> the path \<open>a, zzz\<close> has a final segment that
  does not resolve; the album cards rendered for it are the sub-albums of \<open>a\<close>, not the
  empty list.
\<close>

theorem C3_unresolved_view_counterexample:
  "final_segment_unresolved forest0 [''a'', ''zzz'']
   \<and> visibleAlbums forest0 [''a'', ''zzz''] False = [album_b]
   \<and> visibleAlbums forest0 [''a'', ''zzz''] False \<noteq> []"
  by (simp add: final_segment_unresolved_def visibleAlbums_def getCurrentDirectory_def
        getCurrentDirectory_step_def find_album_def forest0_def album_a_def album_b_def
        or_empty_def)

text \<open>
  C3 (amended).  For a non-empty path that does not resolve (in particular one whose
  final segment does not resolve), the visible image list is empty, in the flat and in
  the nested mode.  The visible album list is not emptied: when the segments before the
  last one resolve, it is the list of the folder they reach (the root list when there
  are none).  Both functions are total: no error is raised.
\<close>

theorem C3_unresolved_view:
  assumes "path \<noteq> []" and "\<not> resolves albums path"
  shows "activePhotos albums path nested = []
         \<and> (resolves albums (butlast path) \<longrightarrow>
              visibleAlbums albums path False
                = directory_of albums (spec_currentAlbum albums (butlast path)))"
proof -
  have "getCurrentAlbum albums path = None"
    using assms(2) by (simp add: getCurrentAlbum_resolution)
  then have photos: "activePhotos albums path nested = []"
    by (simp add: activePhotos_def)
  have cards: "visibleAlbums albums path False
                = directory_of albums (spec_currentAlbum albums (butlast path))"
    if rb: "resolves albums (butlast path)"
  proof -
    have split: "path = butlast path @ [last path]" using assms(1) by simp
    have "resolves albums (butlast path @ [last path]) = resolves albums path"
      using split by simp
    with assms(2) rb have nf:
      "find_album (last path) (foldl getCurrentDirectory_step albums (butlast path)) = None"
      by (simp add: resolves_snoc)
    have "getCurrentDirectory albums path
            = getCurrentDirectory_step (foldl getCurrentDirectory_step albums (butlast path))
                (last path)"
      unfolding getCurrentDirectory_def by (subst split) simp
    also have "\<dots> = foldl getCurrentDirectory_step albums (butlast path)"
      using nf by (simp add: getCurrentDirectory_step_def)
    also have "\<dots> = directory_of albums (spec_currentAlbum albums (butlast path))"
      unfolding spec_currentAlbum_def
      by (rule getCurrentDirectory_resolved [OF rb]) (simp add: directory_of_def)
    finally show ?thesis by (simp add: visibleAlbums_def)
  qed
  from photos cards show ?thesis by simp
qed

theorem C3_unresolved_view_witness:
  "[''a'', ''zzz''] \<noteq> [] \<and> \<not> resolves forest0 [''a'', ''zzz'']
   \<and> resolves forest0 (butlast [''a'', ''zzz''])
   \<and> activePhotos forest0 [''a'', ''zzz''] False = []
   \<and> visibleAlbums forest0 [''a'', ''zzz''] False = [album_b]"
proof -
  have h: "\<not> resolves forest0 [''a'', ''zzz'']"
    by (simp add: find_album_def forest0_def album_a_def album_b_def or_empty_def)
  have r: "resolves forest0 (butlast [''a'', ''zzz''])"
    by (simp add: find_album_def forest0_def album_a_def album_b_def or_empty_def)
  have d: "directory_of forest0 (spec_currentAlbum forest0 (butlast [''a'', ''zzz''])) = [album_b]"
    by (simp add: directory_of_def spec_currentAlbum_def find_album_def forest0_def
          album_a_def album_b_def or_empty_def)
  from C3_unresolved_view [OF _ h, of False] h r d show ?thesis by simp
qed

section \<open>The sync client\<close>

lemma state_syncToBackend:
  "state (syncToBackend net t s) = (state s)\<lparr>syncing := False\<rparr>"
  by (simp add: syncToBackend_def dispatch_def fetch_def Let_def split: response.splits)

lemma state_persistChanges:
  "state (persistChanges net t s) = (state s)\<lparr>items := t, syncing := False\<rparr>"
  by (simp add: persistChanges_def state_syncToBackend dispatch_def)

lemma requests_syncToBackend:
  "requests (syncToBackend net t s) =
     requests s @ Request PUT (API_BASE @ ''/1'') (DataBody t)
       # (case net (length (requests s)) of
            Rejected \<Rightarrow> []
          | Http st b \<Rightarrow>
              if response_ok st then [] else [Request POST API_BASE (IdDataBody ''1'' t)])"
  by (simp add: syncToBackend_def dispatch_def fetch_def Let_def split: response.splits)

lemma fetchWithRetry_fails:
  "(\<And>k. k \<le> retries \<Longrightarrow> attempt_fails (net (length log + k))) \<Longrightarrow>
   \<exists>err waits. fetchWithRetry net u retries backoff log
      = (Inl err, log @ replicate (Suc retries) (Request GET u NoBody), waits)
      \<and> waits = map (\<lambda>j. backoff * 2 ^ j) [0..<retries]"
proof (induction retries arbitrary: backoff log)
  case 0
  from "0.prems" [of 0] show ?case
    by (auto simp: fetch_def attempt_fails_def split: sum.splits)
next
  case (Suc retries)
  let ?log1 = "log @ [Request GET u NoBody]"
  from Suc.prems [of 0] obtain e where e: "fetch_attempt (net (length log)) = Inl e"
    by (auto simp: attempt_fails_def split: sum.splits)
  have "\<And>k. k \<le> retries \<Longrightarrow> attempt_fails (net (length ?log1 + k))"
    using Suc.prems [of "Suc k" for k] by simp
  from Suc.IH [OF this, of "backoff * 2"] obtain err waits where
    r: "fetchWithRetry net u retries (backoff * 2) ?log1
          = (Inl err, ?log1 @ replicate (Suc retries) (Request GET u NoBody), waits)"
    and w: "waits = map (\<lambda>j. backoff * 2 * 2 ^ j) [0..<retries]"
    by blast
  have "map (\<lambda>j. backoff * 2 ^ j) [0..<Suc retries]
          = backoff # map (\<lambda>j. backoff * 2 * 2 ^ j) [0..<retries]"
    by (simp add: upt_rec [of 0] map_Suc_upt [symmetric] del: upt_Suc)
  then show ?case
    using e r w by (simp add: fetch_def replicate_app_Cons_same)
qed

text \<open>
  C4 (amended).  \<^verbatim>\<open>fetchWithRetry\<close> makes a first attempt and up to three retries.
  When four consecutive attempts fail (a status that is neither 404 nor 2xx, a rejected
  request or a body that does not parse), \<^verbatim>\<open>load\<close> ends in the status \<^verbatim>\<open>failed\<close>
  with the error message set and the tree as it was; it has issued exactly four GETs and
  waited 500, 1000 and 2000 ms between them.
\<close>

theorem C4_load:
  assumes "\<forall>k<4. attempt_fails (net (length (requests s) + k))"
  shows "status (state (fetchAlbums net s)) = Failed
       \<and> error (state (fetchAlbums net s)) = Some fetch_error_message
       \<and> items (state (fetchAlbums net s)) = items (state s)
       \<and> requests (fetchAlbums net s) = requests s @ replicate 4 (Request GET API_BASE NoBody)
       \<and> delays (fetchAlbums net s) = delays s @ [500, 1000, 2000]"
proof -
  have "\<And>k. k \<le> 3 \<Longrightarrow> attempt_fails (net (length (requests s) + k))"
    using assms by simp
  from fetchWithRetry_fails [of 3 net "requests s" API_BASE 500, OF this]
  obtain err where
    "fetchWithRetry net API_BASE 3 500 (requests s)
       = (Inl err, requests s @ replicate 4 (Request GET API_BASE NoBody),
          map (\<lambda>j. 500 * 2 ^ j) [0..<3])"
    by auto
  moreover have "map (\<lambda>j. 500 * 2 ^ j) [0..<3] = [500, 1000, 2000::nat]"
    by (simp add: upt_rec)
  ultimately show ?thesis
    by (simp add: fetchAlbums_def dispatch_def)
qed

theorem C4_load_witness:
  "attempt_fails (net_down 0) \<and> attempt_fails (net_down 1)
   \<and> attempt_fails (net_down 2) \<and> attempt_fails (net_down 3)
   \<and> requests initialApp = []
   \<and> status (state (fetchAlbums net_down initialApp)) = Failed
   \<and> error (state (fetchAlbums net_down initialApp)) = Some fetch_error_message
   \<and> items (state (fetchAlbums net_down initialApp)) = []
   \<and> length (requests (fetchAlbums net_down initialApp)) = 4"
proof -
  have h: "\<forall>k<4. attempt_fails (net_down (length (requests initialApp) + k))"
    by (simp add: attempt_fails_def net_down_def fetch_attempt_def response_ok_def)
  have r: "requests initialApp = []" "items (state initialApp) = []"
    by (simp_all add: initialApp_def initialState_def)
  have a: "attempt_fails (net_down k)" for k
    by (simp add: attempt_fails_def net_down_def fetch_attempt_def response_ok_def)
  from C4_load [OF h] r a show ?thesis by simp
qed

text \<open>
  C4 (as stated, refuted).  The store answers the first three GETs with 500 and the fourth
  with the stored forest: after three consecutive failures \<^verbatim>\<open>load\<close> succeeds, no error
  is surfaced and the tree is replaced.
\<close>

theorem C4_load_counterexample:
  "server_error (net_three_failures 0) \<and> server_error (net_three_failures 1)
   \<and> server_error (net_three_failures 2)
   \<and> requests initialApp = []
   \<and> status (state (fetchAlbums net_three_failures initialApp)) = Succeeded
   \<and> error (state (fetchAlbums net_three_failures initialApp)) = None
   \<and> items (state (fetchAlbums net_three_failures initialApp)) = forest0"
  by (simp add: fetchAlbums_def dispatch_def initialApp_def initialState_def
      net_three_failures_def eval_nat_numeral fetch_def fetch_attempt_def response_ok_def
      server_error_def or_empty_def)

lemma trim_empty_iff: "trim n = [] \<longleftrightarrow> (\<forall>c \<in> set n. is_ws c)"
proof
  assume t: "trim n = []"
  have "dropWhile is_ws n = []"
  proof (rule ccontr)
    assume ne: "dropWhile is_ws n \<noteq> []"
    then have "\<not> is_ws (hd (dropWhile is_ws n))" by (rule hd_dropWhile)
    moreover have "hd (dropWhile is_ws n) \<in> set (dropWhile is_ws n)" using ne by simp
    ultimately show False using t by (auto simp: trim_def)
  qed
  then show "\<forall>c \<in> set n. is_ws c" by simp
next
  assume "\<forall>c \<in> set n. is_ws c"
  then have "dropWhile is_ws n = []" by simp
  then show "trim n = []" by (simp add: trim_def del: dropWhile_eq_Nil_conv)
qed

text \<open>
  C8.  When the typed name is empty or consists of white space only, \<^verbatim>\<open>createAlbum\<close>
  returns at its first line: the whole component state is as before, in particular the
  tree, and no request has been issued.
\<close>

theorem C8_createAlbum_blank:
  assumes "\<forall>c \<in> set (newAlbumName s). is_ws c"
  shows "createAlbum rnd net s = s
       \<and> items (state (createAlbum rnd net s)) = items (state s)
       \<and> requests (createAlbum rnd net s) = requests s"
  using assms by (simp add: createAlbum_def trim_empty_iff)

theorem C8_createAlbum_blank_witness:
  "createAlbum rnd_fresh net_down (initialApp\<lparr>newAlbumName := []\<rparr>) = initialApp\<lparr>newAlbumName := []\<rparr>
  \<and> requests (createAlbum rnd_fresh net_down (initialApp\<lparr>newAlbumName := ''  ''\<rparr>)) = []"
  using C8_createAlbum_blank [of "initialApp\<lparr>newAlbumName := []\<rparr>" rnd_fresh net_down]
   C8_createAlbum_blank [of "initialApp\<lparr>newAlbumName := ''  ''\<rparr>" rnd_fresh net_down]
  by (simp add: is_ws_def initialApp_def)

text \<open>
  C9.  \<^verbatim>\<open>save\<close> always issues the PUT of \<^verbatim>\<open>{ data: tree }\<close> to record 1 first.  The
  POST of \<^verbatim>\<open>{ id: "1", data: tree }\<close> follows exactly when the PUT was answered with a
  status outside 200..299 (not when the PUT request itself was rejected), and nothing
  else is issued.  Whatever the answers, \<^verbatim>\<open>save\<close> ends normally, the tree, the
  status and the error of the reducer state are as before, and after
  \<^verbatim>\<open>persistChanges\<close> the tree is the one that was handed in.
\<close>

theorem C9_save:
  "requests (syncToBackend net tree s) =
     requests s @ Request PUT (API_BASE @ ''/1'') (DataBody tree)
       # (case net (length (requests s)) of
            Rejected \<Rightarrow> []
          | Http st b \<Rightarrow>
              if response_ok st then [] else [Request POST API_BASE (IdDataBody ''1'' tree)])
   \<and> items (state (syncToBackend net tree s)) = items (state s)
   \<and> status (state (syncToBackend net tree s)) = status (state s)
   \<and> error (state (syncToBackend net tree s)) = error (state s)
   \<and> items (state (persistChanges net tree s)) = tree
   \<and> status (state (persistChanges net tree s)) = status (state s)
   \<and> error (state (persistChanges net tree s)) = error (state s)"
  by (simp add: requests_syncToBackend state_syncToBackend state_persistChanges)

section \<open>Deleting an album\<close>

lemma deleteRecursive_absent:
  "i \<notin> set (album_ids T) \<Longrightarrow> deleteRecursive i T = T"
proof (induction i T rule: deleteRecursive.induct)
  case (1 i)
  show ?case by simp
next
  case (2 i j n im sub rest)
  from "2.prems" have ji: "j \<noteq> i"
    and sub: "\<And>s. sub = Some s \<Longrightarrow> i \<notin> set (album_ids s)"
    and rest: "i \<notin> set (album_ids rest)"
    by (auto simp: album_ids_def all_albums_def)
  show ?case
    using ji "2.IH"(2) [OF ji _ sub] "2.IH"(3) [OF ji rest]
    by (cases sub) simp_all
qed

text \<open>
  C5.  Deleting an album id that occurs nowhere in the forest returns a forest equal to
  the given one, and the handler leaves the tree of the state as it was.  (The same on
  the object store is \<open>deleteAlbum_store_absent\<close> below.)
\<close>

theorem C5_delete_absent:
  assumes "i \<notin> set (album_ids (items (state s)))"
  shows "deleteRecursive i (items (state s)) = items (state s)
       \<and> items (state (deleteAlbum net i s)) = items (state s)"
  using assms by (simp add: deleteRecursive_absent deleteAlbum_def state_persistChanges)

theorem C5_delete_absent_witness:
  "''zzz'' \<notin> set (album_ids forest0)
   \<and> deleteRecursive ''zzz'' forest0 = forest0"
proof -
  let ?s = "initialApp\<lparr>state := initialState\<lparr>items := forest0\<rparr>\<rparr>"
  have h: "''zzz'' \<notin> set (album_ids (items (state ?s)))"
    by (simp add: album_ids_def all_albums_def forest0_def album_a_def album_b_def)
  show ?thesis
    using h C5_delete_absent [OF h] by simp
qed

section \<open>Deleting an image\<close>

lemma outline_deleteImage_item: "outline_of (deleteImage_item x a) = outline_of a"
  by (induction a) (auto split: option.splits)

lemma images_deleteImage_item:
  "map images (albums_of (deleteImage_item x a))
     = map (\<lambda>b. map_option (filter (\<lambda>img. image_id img \<noteq> x)) (images b)) (albums_of a)"
proof (induction a)
  case (Album i n im sub)
  show ?case
  proof (cases sub)
    case None
    then show ?thesis by (cases im) simp_all
  next
    case (Some s)
    have "map images (concat (map albums_of (map (deleteImage_item x) s)))
            = map (\<lambda>b. map_option (filter (\<lambda>img. image_id img \<noteq> x)) (images b))
                (concat (map albums_of s))"
      using Album.IH Some by (simp add: map_concat comp_def cong: map_cong)
    then show ?thesis using Some by (cases im) simp_all
  qed
qed

text \<open>
  C10.  \<^verbatim>\<open>deleteImage\<close> changes images lists only: the rewritten forest has the same
  outline (the same albums, ids and names, in the same nesting and order), and, album by
  album in pre-order, the images list is the original one without the entries whose id is
  the given one (a missing list stays missing).  The handler stores this forest.
\<close>

theorem C10_deleteImage_frame:
  "map outline_of (deleteFromRecursive x T) = map outline_of T
   \<and> map images (all_albums (deleteFromRecursive x T))
       = map (\<lambda>b. map_option (filter (\<lambda>img. image_id img \<noteq> x)) (images b)) (all_albums T)
   \<and> items (state (deleteImage net x s)) = deleteFromRecursive x (items (state s))"
proof -
  have "map outline_of (deleteFromRecursive x T) = map outline_of T"
    by (simp add: deleteFromRecursive_def outline_deleteImage_item)
  moreover have "map images (all_albums (deleteFromRecursive x T))
       = map (\<lambda>b. map_option (filter (\<lambda>img. image_id img \<noteq> x)) (images b)) (all_albums T)"
    by (simp add: deleteFromRecursive_def all_albums_def map_concat comp_def
          images_deleteImage_item)
  moreover have "items (state (deleteImage net x s)) = deleteFromRecursive x (items (state s))"
    by (simp add: deleteImage_def state_persistChanges)
  ultimately show ?thesis by simp
qed

theorem C10_deleteImage_frame_witness:
  "deleteFromRecursive ''p2'' forest0
     = [Album ''a'' ''Alps'' (Some [img1]) (Some [Album ''b'' ''Beach'' (Some []) (Some [])])]
   \<and> map images (all_albums (deleteFromRecursive ''p2'' forest0)) = [Some [img1], Some []]"
  using C10_deleteImage_frame [of "''p2''" forest0 net_down app0]
  by (simp add: deleteFromRecursive_def all_albums_def forest0_def album_a_def album_b_def
        img1_def img2_def)

section \<open>Inserting images\<close>

lemma count_list_concat_le:
  "count_list (concat xss) t \<le> 1 \<Longrightarrow> xs \<in> set xss \<Longrightarrow> count_list xs t \<le> 1"
  by (induction xss) (auto split: if_splits)

lemma count_list_0_iff: "count_list xs t = 0 \<longleftrightarrow> t \<notin> set xs"
  by (induction xs) auto

lemma listing_Album: "listing (Album i n im sub) = (i, im)"
  by (simp add: listing_def)

lemma grown_Album:
  "grown t new (Album i n im sub) = (i, if i = t then Some (or_empty im @ new) else im)"
  by (simp add: grown_def)

lemma upload_item_listing:
  "count_list (map album_id (albums_of a)) t \<le> 1 \<Longrightarrow>
   map listing (albums_of (handleFileUpload_updateItem t new a)) = map (grown t new) (albums_of a)"
proof (induction a)
  case (Album i n im sub)
  show ?case
  proof (cases "i = t")
    case True
    with Album.prems have "count_list (map album_id (concat (map albums_of (or_empty sub)))) t = 0"
      by (cases sub) (simp_all add: or_empty_def)
    then have "\<forall>b \<in> set (concat (map albums_of (or_empty sub))). album_id b \<noteq> t"
      by (auto simp: count_list_0_iff)
    then have "map listing (concat (map albums_of (or_empty sub)))
                 = map (grown t new) (concat (map albums_of (or_empty sub)))"
      by (intro map_cong) (auto simp: listing_def grown_def)
    then show ?thesis using True
      by (cases sub) (simp_all add: or_empty_def listing_Album grown_Album)
  next
    case False
    show ?thesis
    proof (cases sub)
      case None
      then show ?thesis using False by (simp add: listing_Album grown_Album)
    next
      case (Some s)
      have c: "count_list (concat (map (map album_id \<circ> albums_of) s)) t \<le> 1"
        using Album.prems False Some by (simp add: map_concat)
      have "\<And>b. b \<in> set s \<Longrightarrow> count_list (map album_id (albums_of b)) t \<le> 1"
      proof -
        fix b assume "b \<in> set s"
        then have "map album_id (albums_of b) \<in> set (map (map album_id \<circ> albums_of) s)"
          by auto
        from count_list_concat_le [OF c this] show "count_list (map album_id (albums_of b)) t \<le> 1" .
      qed
      then have "\<And>b. b \<in> set s \<Longrightarrow>
          map listing (albums_of (handleFileUpload_updateItem t new b)) = map (grown t new) (albums_of b)"
        using Album.IH Some by auto
      then have "map listing (concat (map albums_of (map (handleFileUpload_updateItem t new) s)))
                   = map (grown t new) (concat (map albums_of s))"
        by (simp add: map_concat comp_def cong: map_cong)
      then show ?thesis using False Some by (simp add: listing_Album grown_Album)
    qed
  qed
qed

lemma outline_upload_item: "outline_of (handleFileUpload_updateItem t new a) = outline_of a"
  by (induction a) (auto split: option.splits)

lemma upload_listing:
  assumes "count_list (album_ids T) t \<le> 1"
  shows "map listing (all_albums (handleFileUpload_updateRecursive t new T))
           = map (grown t new) (all_albums T)"
proof -
  have c: "count_list (concat (map (map album_id \<circ> albums_of) T)) t \<le> 1"
    using assms by (simp add: album_ids_def all_albums_def map_concat)
  have "\<And>b. b \<in> set T \<Longrightarrow> count_list (map album_id (albums_of b)) t \<le> 1"
  proof -
    fix b assume "b \<in> set T"
    then have "map album_id (albums_of b) \<in> set (map (map album_id \<circ> albums_of) T)"
      by auto
    from count_list_concat_le [OF c this] show "count_list (map album_id (albums_of b)) t \<le> 1" .
  qed
  then show ?thesis
    by (simp add: handleFileUpload_updateRecursive_def all_albums_def map_concat comp_def
          upload_item_listing cong: map_cong)
qed

lemma length_newImages_from: "length (newImages_from rnd k files) = length files"
  by (induction files arbitrary: k) auto


text \<open>
  C6.  With a non-empty path whose last id occurs exactly once in the forest,
  \<^verbatim>\<open>handleFileUpload\<close> with \<open>k\<close> files stores a forest with the same outline in
  which, album by album in pre-order, the images list is the original one followed by the
  \<open>k\<close> new images (one per file, in order) for the album with that id, and the
  \<^verbatim>\<open>images\<close> field as it was for every other album.  (Without files the handler
  returns at once and the forest is as it was.)
\<close>

theorem C6_insert_images:
  assumes "currentPath s \<noteq> []"
    and "count_list (album_ids (items (state s))) (last (currentPath s)) = 1"
  shows "map listing (all_albums (items (state (handleFileUpload rnd net files s))))
           = (if files = [] then map listing (all_albums (items (state s)))
              else map (grown (last (currentPath s)) (newImages_from rnd (draws s) files))
                     (all_albums (items (state s))))
       \<and> length (newImages_from rnd (draws s) files) = length files
       \<and> map outline_of (items (state (handleFileUpload rnd net files s)))
           = map outline_of (items (state s))"
proof (cases "files = []")
  case True
  then show ?thesis by (simp add: handleFileUpload_def)
next
  case False
  have "count_list (album_ids (items (state s))) (last (currentPath s)) \<le> 1"
    using assms(2) by simp
  from upload_listing [OF this] False assms(1) show ?thesis
    by (simp add: handleFileUpload_def state_persistChanges length_newImages_from
          handleFileUpload_updateRecursive_def outline_upload_item)
qed

theorem C6_insert_images_witness:
  "currentPath (app0\<lparr>currentPath := [''a'', ''b'']\<rparr>) \<noteq> []
   \<and> count_list (album_ids (items (state (app0\<lparr>currentPath := [''a'', ''b'']\<rparr>)))) ''b'' = 1
   \<and> map listing (all_albums (items (state
         (handleFileUpload rnd_fresh net_down [file3] (app0\<lparr>currentPath := [''a'', ''b'']\<rparr>)))))
       = [(''a'', Some [img1]),
          (''b'', Some [img2, Image ''x'' ''three.png'' ''blob:3'' ''3.0 KB''])]"
proof -
  let ?s = "app0\<lparr>currentPath := [''a'', ''b'']\<rparr>"
  have h1: "currentPath ?s \<noteq> []" by simp
  have i: "items (state app0) = forest0" "draws app0 = 0"
    by (simp_all add: app0_def initialApp_def)
  have h2: "count_list (album_ids (items (state ?s))) (last (currentPath ?s)) = 1"
    by (simp add: i album_ids_def all_albums_def forest0_def album_a_def album_b_def)
  have c: "count_list (album_ids forest0) ''b'' = 1"
    by (simp add: album_ids_def all_albums_def forest0_def album_a_def album_b_def)
  from C6_insert_images [OF h1 h2, of rnd_fresh net_down "[file3]"] c show ?thesis
    by (simp add: i all_albums_def forest0_def album_a_def album_b_def grown_def
          or_empty_def rnd_fresh_def file3_def)
qed

section \<open>The handlers and their input, on the object store\<close>

lemma extends_refl: "extends h h"
  by (simp add: extends_def)

lemma extends_trans: "extends h h1 \<Longrightarrow> extends h1 h2 \<Longrightarrow> extends h h2"
proof -
  assume a: "extends h h1" and b: "extends h1 h2"
  have l: "length h \<le> length h1" "length h1 \<le> length h2"
    using a b by (simp_all add: extends_def)
  have "take (length h) h2 = take (length h) (take (length h1) h2)"
    using l by (simp add: min_def)
  also have "\<dots> = take (length h) h1" using b by (simp add: extends_def)
  also have "\<dots> = h" using a by (simp add: extends_def)
  finally show ?thesis using l by (simp add: extends_def)
qed

lemma extends_append: "extends h (h @ ext)"
  by (simp add: extends_def)

lemma extends_update: "extends h h' \<Longrightarrow> length h \<le> n \<Longrightarrow> extends h (h'[n := v])"
  by (simp add: extends_def)

lemma extends_nth: "extends h h' \<Longrightarrow> a < length h \<Longrightarrow> h' ! a = h ! a"
proof -
  assume a: "extends h h'" and b: "a < length h"
  have "h ! a = take (length h) h' ! a" using a by (simp add: extends_def)
  also have "\<dots> = h' ! a" using b by simp
  finally show ?thesis by simp
qed

lemma extends_length: "extends h h' \<Longrightarrow> length h \<le> length h'"
  by (simp add: extends_def)

lemma deleteFromRecursive_store_extends:
  "deleteFromRecursive_store d x as h = Some (as', h') \<Longrightarrow> extends h h'"
proof (induction d x as h arbitrary: as' h' rule: deleteFromRecursive_store.induct)
  case (1 x as h)
  then show ?case by simp
next
  case (2 d x h)
  then show ?case by (simp add: extends_refl)
next
  case (3 d x a rest h)
  have na: "\<not> length h \<le> a"
  proof
    assume "length h \<le> a"
    then have "deleteFromRecursive_store (Suc d) x (a # rest) h = None" by simp
    with "3.prems" show False by simp
  qed
  define h1 where "h1 = h @ [h ! a]"
  define h2 where "h2 = (case obj_images (h1 ! length h) of
                     None \<Rightarrow> h1
                   | Some xs \<Rightarrow>
                       h1[length h := (h1 ! length h)
                            \<lparr>obj_images := Some (filter (\<lambda>img. image_id img \<noteq> x) xs)\<rparr>])"
  define r4 where "r4 = (case obj_subAlbums (h2 ! length h) of
                    None \<Rightarrow> Some h2
                  | Some s \<Rightarrow>
                      (case deleteFromRecursive_store d x s h2 of
                         None \<Rightarrow> None
                       | Some (s', h3) \<Rightarrow>
                           Some (h3[length h := (h3 ! length h)\<lparr>obj_subAlbums := Some s'\<rparr>])))"
  have step: "deleteFromRecursive_store (Suc d) x (a # rest) h =
      (case r4 of
         None \<Rightarrow> None
       | Some h4 \<Rightarrow>
           (case deleteFromRecursive_store (Suc d) x rest h4 of
              None \<Rightarrow> None
            | Some (mapped, h5) \<Rightarrow> Some (length h # mapped, h5)))"
    using na unfolding r4_def h2_def h1_def
    by (simp only: deleteFromRecursive_store.simps Let_def if_False)
  have e2: "extends h h2"
  proof (cases "obj_images (h1 ! length h)")
    case None
    then show ?thesis by (simp add: h2_def h1_def extends_append)
  next
    case (Some xs)
    then have "h2 = h1[length h := (h1 ! length h)
                  \<lparr>obj_images := Some (filter (\<lambda>img. image_id img \<noteq> x) xs)\<rparr>]"
      by (simp add: h2_def)
    moreover have "extends h h1" by (simp add: h1_def extends_append)
    ultimately show ?thesis by (simp add: extends_update)
  qed
  from "3.prems" step obtain h4 where h4: "r4 = Some h4"
    by (cases r4) simp_all
  with "3.prems" step obtain mapped where
    m: "deleteFromRecursive_store (Suc d) x rest h4 = Some (mapped, h')"
    by (cases "deleteFromRecursive_store (Suc d) x rest h4") auto
  have e4: "extends h h4"
  proof (cases "obj_subAlbums (h2 ! length h)")
    case None
    with h4 e2 show ?thesis by (simp add: r4_def)
  next
    case (Some s)
    with h4 obtain s' h3 where r: "deleteFromRecursive_store d x s h2 = Some (s', h3)"
      and h4': "h4 = h3[length h := (h3 ! length h)\<lparr>obj_subAlbums := Some s'\<rparr>]"
      by (cases "deleteFromRecursive_store d x s h2") (auto simp: r4_def)
    have "extends h2 h3"
      by (rule "3.IH"(1) [OF na refl h1_def h2_def Some r])
    with e2 have "extends h h3" by (rule extends_trans)
    then show ?thesis
      unfolding h4' by (rule extends_update) simp
  qed
  have "extends h4 h'"
    by (rule "3.IH"(2) [OF na refl h1_def h2_def h4 [unfolded r4_def] m])
  with e4 show ?case by (rule extends_trans)
qed


lemma forest_of_extends:
  "forest_of d h as = Some T \<Longrightarrow> extends h h' \<Longrightarrow> forest_of d h' as = Some T"
proof (induction d h as arbitrary: T rule: forest_of.induct)
  case (1 h as)
  then show ?case by simp
next
  case (2 d h)
  then show ?case by simp
next
  case (3 d h a rest)
  from "3.prems"(1) have a: "a < length h" by (simp split: if_splits)
  then have a': "a < length h'" and eq: "h' ! a = h ! a"
    using "3.prems"(2) extends_length [of h h'] extends_nth [of h h' a] by auto
  from "3.prems"(1) a obtain sub ts where
    sub: "(case obj_subAlbums (h ! a) of
                 None \<Rightarrow> Some None
               | Some s \<Rightarrow> (case forest_of d h s of None \<Rightarrow> None | Some t \<Rightarrow> Some (Some t))) = Some sub"
    and ts: "forest_of (Suc d) h rest = Some ts"
    and T: "T = Album (obj_id (h ! a)) (obj_name (h ! a)) (obj_images (h ! a)) sub # ts"
    by (simp split: option.splits)
  have na: "\<not> length h \<le> a" using a by simp
  have ts': "forest_of (Suc d) h' rest = Some ts"
    by (rule "3.IH"(2) [OF na sub ts "3.prems"(2)])
  have sub': "(case obj_subAlbums (h ! a) of
                 None \<Rightarrow> Some None
               | Some s \<Rightarrow> (case forest_of d h' s of None \<Rightarrow> None | Some t \<Rightarrow> Some (Some t))) = Some sub"
  proof (cases "obj_subAlbums (h ! a)")
    case None
    with sub show ?thesis by simp
  next
    case (Some s)
    with sub obtain t where t: "forest_of d h s = Some t" and "sub = Some t"
      by (auto split: option.splits)
    moreover have "forest_of d h' s = Some t"
      by (rule "3.IH"(1) [OF na Some t "3.prems"(2)])
    ultimately show ?thesis using Some by simp
  qed
  show ?case using a' eq ts' sub' T by simp
qed

text \<open>
  \<^verbatim>\<open>deleteImage\<close> leaves its input alone: whatever forest was seen from the root
  array before the call is seen from it afterwards.
\<close>

lemma deleteImage_store_pure:
  assumes "forest_of d h albums = Some T"
    and "deleteImage_store d' x albums h = Some (result, h')"
  shows "forest_of d h' albums = Some T"
  using assms
  by (auto simp: deleteImage_store_def
      intro: forest_of_extends deleteFromRecursive_store_extends)


text \<open>
  The value that \<^verbatim>\<open>deleteRecursive\<close> returns: on a tree-shaped forest, the function on
  the store returns (the depth bound that reads the forest is enough), and the array it
  returns shows the forest that \<open>deleteRecursive\<close> computes on values.
\<close>

lemma frame_forest_addrs:
  "length h' = length h \<Longrightarrow> (\<And>b. b \<in> set (addrs_of d h as) \<Longrightarrow> h' ! b = h ! b) \<Longrightarrow>
   forest_of d h' as = forest_of d h as \<and> addrs_of d h' as = addrs_of d h as"
proof (induction d h as rule: addrs_of.induct)
  case (1 h as)
  show ?case by simp
next
  case (2 d h)
  show ?case by simp
next
  case (3 d h a rest)
  have a: "h' ! a = h ! a" using "3.prems"(2) by simp
  have rest: "forest_of (Suc d) h' rest = forest_of (Suc d) h rest
              \<and> addrs_of (Suc d) h' rest = addrs_of (Suc d) h rest"
    using "3.IH"(2) "3.prems" by simp
  have sub: "\<And>s. obj_subAlbums (h ! a) = Some s \<Longrightarrow>
      forest_of d h' s = forest_of d h s \<and> addrs_of d h' s = addrs_of d h s"
  proof -
    fix s assume s: "obj_subAlbums (h ! a) = Some s"
    show "forest_of d h' s = forest_of d h s \<and> addrs_of d h' s = addrs_of d h s"
      using "3.IH"(1) [OF s "3.prems"(1)] "3.prems"(2) s by simp
  qed
  show ?case
  proof (cases "obj_subAlbums (h ! a)")
    case None
    show ?thesis using rest "3.prems"(1) by (simp add: a None cong: option.case_cong)
  next
    case (Some s)
    show ?thesis using rest sub [OF Some] "3.prems"(1) by (simp add: a Some cong: option.case_cong)
  qed
qed

lemma del_okI:
  "res = Some (as', h') \<Longrightarrow> length h' = length h \<Longrightarrow>
   (\<And>b. b \<notin> set (addrs_of d h as) \<Longrightarrow> h' ! b = h ! b) \<Longrightarrow>
   forest_of d h' as' = Some (deleteRecursive i T) \<Longrightarrow>
   set (addrs_of d h' as') \<subseteq> set (addrs_of d h as) \<Longrightarrow> del_ok d i as h T res"
  by (simp add: del_ok_def)

lemma del_okE:
  assumes "del_ok d i as h T res"
  obtains as' h' where "res = Some (as', h')" "length h' = length h"
    "\<And>b. b \<notin> set (addrs_of d h as) \<Longrightarrow> h' ! b = h ! b"
    "forest_of d h' as' = Some (deleteRecursive i T)"
    "set (addrs_of d h' as') \<subseteq> set (addrs_of d h as)"
  using assms by (cases res) (auto simp: del_ok_def)

lemma forest_of_ConsE:
  assumes "forest_of (Suc d) h (a # rest) = Some T"
  obtains sub ts where "a < length h"
    "(case obj_subAlbums (h ! a) of
        None \<Rightarrow> Some None
      | Some s \<Rightarrow> (case forest_of d h s of None \<Rightarrow> None | Some t \<Rightarrow> Some (Some t))) = Some sub"
    "forest_of (Suc d) h rest = Some ts"
    "T = Album (obj_id (h ! a)) (obj_name (h ! a)) (obj_images (h ! a)) sub # ts"
proof -
  have a: "a < length h"
  proof (rule ccontr)
    assume "\<not> a < length h"
    then have "forest_of (Suc d) h (a # rest) = None" by simp
    with assms show False by simp
  qed
  let ?c = "(case obj_subAlbums (h ! a) of
        None \<Rightarrow> Some None
      | Some s \<Rightarrow> (case forest_of d h s of None \<Rightarrow> None | Some t \<Rightarrow> Some (Some t)))"
  have eq: "forest_of (Suc d) h (a # rest) =
     (case ?c of None \<Rightarrow> None
      | Some sub \<Rightarrow> (case forest_of (Suc d) h rest of None \<Rightarrow> None
          | Some ts \<Rightarrow> Some (Album (obj_id (h ! a)) (obj_name (h ! a)) (obj_images (h ! a)) sub # ts)))"
    using a by simp
  obtain sub where sub: "?c = Some sub"
    using assms eq by (cases ?c) simp_all
  obtain ts where ts: "forest_of (Suc d) h rest = Some ts"
    using assms eq sub by (cases "forest_of (Suc d) h rest") simp_all
  have "T = Album (obj_id (h ! a)) (obj_name (h ! a)) (obj_images (h ! a)) sub # ts"
    using assms eq sub ts by simp
  with a sub ts show ?thesis by (rule that)
qed

lemma deleteRecursive_store_refines:
  "forest_of d h as = Some T \<Longrightarrow> distinct (addrs_of d h as) \<Longrightarrow>
   del_ok d i as h T (deleteRecursive_store d i as h)"
proof (induction d i as h arbitrary: T rule: deleteRecursive_store.induct)
  case (1 i as h)
  then show ?case by simp
next
  case (2 d i h)
  then show ?case by (simp add: del_ok_def)
next
  case (3 d i a rest h)
  from "3.prems"(1) obtain sub ts where a: "a < length h"
    and sub: "(case obj_subAlbums (h ! a) of
        None \<Rightarrow> Some None
      | Some s \<Rightarrow> (case forest_of d h s of None \<Rightarrow> None | Some t \<Rightarrow> Some (Some t))) = Some sub"
    and ts: "forest_of (Suc d) h rest = Some ts"
    and T: "T = Album (obj_id (h ! a)) (obj_name (h ! a)) (obj_images (h ! a)) sub # ts"
    by (rule forest_of_ConsE)
  have na: "\<not> length h \<le> a" using a by simp
  let ?below = "(case obj_subAlbums (h ! a) of None \<Rightarrow> [] | Some s \<Rightarrow> addrs_of d h s)"
  have addrs: "addrs_of (Suc d) h (a # rest) = a # ?below @ addrs_of (Suc d) h rest"
    by simp
  have d_rest: "distinct (addrs_of (Suc d) h rest)"
    and d_below: "distinct ?below"
    and a_rest: "a \<notin> set (addrs_of (Suc d) h rest)"
    and a_below: "a \<notin> set ?below"
    and disj: "set ?below \<inter> set (addrs_of (Suc d) h rest) = {}"
    using "3.prems"(2) unfolding addrs by auto
  show ?case
  proof (cases "obj_id (h ! a) = i")
    case True
    have ok: "del_ok (Suc d) i rest h ts (deleteRecursive_store (Suc d) i rest h)"
      by (rule "3.IH"(1) [OF na True ts d_rest])
    from ok obtain as' h' where res: "deleteRecursive_store (Suc d) i rest h = Some (as', h')"
      and len: "length h' = length h"
      and frame: "\<And>b. b \<notin> set (addrs_of (Suc d) h rest) \<Longrightarrow> h' ! b = h ! b"
      and forest: "forest_of (Suc d) h' as' = Some (deleteRecursive i ts)"
      and sub': "set (addrs_of (Suc d) h' as') \<subseteq> set (addrs_of (Suc d) h rest)"
      by (rule del_okE) (rule that)
    show ?thesis
    proof (rule del_okI)
      show "deleteRecursive_store (Suc d) i (a # rest) h = Some (as', h')"
        using na True res by simp
      show "length h' = length h" by (rule len)
      show "h' ! b = h ! b" if "b \<notin> set (addrs_of (Suc d) h (a # rest))" for b
        using that by (intro frame) simp
      show "forest_of (Suc d) h' as' = Some (deleteRecursive i T)"
        using forest True T by simp
      show "set (addrs_of (Suc d) h' as') \<subseteq> set (addrs_of (Suc d) h (a # rest))"
        using sub' by auto
    qed
  next
    case False
    show ?thesis
    proof (cases "obj_subAlbums (h ! a)")
      case None
      have subN: "sub = None" using sub None by simp
      have pre: "(case obj_subAlbums (h ! a) of
                 None \<Rightarrow> Some h
               | Some s \<Rightarrow>
                   (case deleteRecursive_store d i s h of
                      None \<Rightarrow> None
                    | Some (s', h1) \<Rightarrow> Some (h1[a := (h1 ! a)\<lparr>obj_subAlbums := Some s'\<rparr>]))) = Some h"
        using None by simp
      have ok: "del_ok (Suc d) i rest h ts (deleteRecursive_store (Suc d) i rest h)"
        by (rule "3.IH"(3) [OF na False pre ts d_rest])
      from ok obtain kept h3 where res: "deleteRecursive_store (Suc d) i rest h = Some (kept, h3)"
        and len: "length h3 = length h"
        and frame: "\<And>b. b \<notin> set (addrs_of (Suc d) h rest) \<Longrightarrow> h3 ! b = h ! b"
        and forest: "forest_of (Suc d) h3 kept = Some (deleteRecursive i ts)"
        and sub': "set (addrs_of (Suc d) h3 kept) \<subseteq> set (addrs_of (Suc d) h rest)"
        by (rule del_okE) (rule that)
      have h3a: "h3 ! a = h ! a" using a_rest by (rule frame)
      show ?thesis
      proof (rule del_okI)
        show "deleteRecursive_store (Suc d) i (a # rest) h = Some (a # kept, h3)"
          using na False None res by simp
        show "length h3 = length h" by (rule len)
        show "h3 ! b = h ! b" if "b \<notin> set (addrs_of (Suc d) h (a # rest))" for b
          using that by (intro frame) simp
        show "forest_of (Suc d) h3 (a # kept) = Some (deleteRecursive i T)"
          using forest False T subN None a len by (simp add: h3a)
        show "set (addrs_of (Suc d) h3 (a # kept)) \<subseteq> set (addrs_of (Suc d) h (a # rest))"
          using sub' None by (auto simp: h3a)
      qed
    next
      case (Some s)
      from sub Some obtain t where t: "forest_of d h s = Some t" and subS: "sub = Some t"
        by (cases "forest_of d h s") auto
      have below: "?below = addrs_of d h s" using Some by simp
      have d_s: "distinct (addrs_of d h s)" using d_below below by simp
      have ok1: "del_ok d i s h t (deleteRecursive_store d i s h)"
        by (rule "3.IH"(2) [OF na False Some t d_s])
      from ok1 obtain s' h1 where res1: "deleteRecursive_store d i s h = Some (s', h1)"
        and len1: "length h1 = length h"
        and frame1: "\<And>b. b \<notin> set (addrs_of d h s) \<Longrightarrow> h1 ! b = h ! b"
        and forest1: "forest_of d h1 s' = Some (deleteRecursive i t)"
        and sub1: "set (addrs_of d h1 s') \<subseteq> set (addrs_of d h s)"
        by (rule del_okE) (rule that)
      define h2 where "h2 = h1[a := (h1 ! a)\<lparr>obj_subAlbums := Some s'\<rparr>]"
      have len2: "length h2 = length h" by (simp add: h2_def len1)
      have h1a: "h1 ! a = h ! a" using a_below below by (intro frame1) simp
      have h2a: "h2 ! a = (h ! a)\<lparr>obj_subAlbums := Some s'\<rparr>"
        using a len1 by (simp add: h2_def h1a)
      have h2b: "h2 ! b = h1 ! b" if "b \<noteq> a" for b
        using that by (simp add: h2_def)
      have a_s': "a \<notin> set (addrs_of d h1 s')" using sub1 a_below below by auto
      have f2: "forest_of d h2 s' = forest_of d h1 s' \<and> addrs_of d h2 s' = addrs_of d h1 s'"
      proof (rule frame_forest_addrs)
        show "length h2 = length h1" by (simp add: h2_def)
        show "h2 ! b = h1 ! b" if "b \<in> set (addrs_of d h1 s')" for b
          using that a_s' by (intro h2b) auto
      qed
      have r2: "forest_of (Suc d) h2 rest = forest_of (Suc d) h rest
                \<and> addrs_of (Suc d) h2 rest = addrs_of (Suc d) h rest"
      proof (rule frame_forest_addrs)
        show "length h2 = length h" by (rule len2)
        show "h2 ! b = h ! b" if "b \<in> set (addrs_of (Suc d) h rest)" for b
        proof -
          have "b \<noteq> a" using that a_rest by auto
          then have "h2 ! b = h1 ! b" by (rule h2b)
          also have "h1 ! b = h ! b" using that disj below by (intro frame1) auto
          finally show ?thesis .
        qed
      qed
      have pre: "(case obj_subAlbums (h ! a) of
                 None \<Rightarrow> Some h
               | Some s \<Rightarrow>
                   (case deleteRecursive_store d i s h of
                      None \<Rightarrow> None
                    | Some (s', h1) \<Rightarrow> Some (h1[a := (h1 ! a)\<lparr>obj_subAlbums := Some s'\<rparr>]))) = Some h2"
        using Some res1 by (simp add: h2_def)
      have ts2: "forest_of (Suc d) h2 rest = Some ts" using r2 ts by simp
      have d2: "distinct (addrs_of (Suc d) h2 rest)" using r2 d_rest by simp
      have ok3: "del_ok (Suc d) i rest h2 ts (deleteRecursive_store (Suc d) i rest h2)"
        by (rule "3.IH"(3) [OF na False pre ts2 d2])
      from ok3 obtain kept h3 where res3: "deleteRecursive_store (Suc d) i rest h2 = Some (kept, h3)"
        and len3: "length h3 = length h2"
        and frame3: "\<And>b. b \<notin> set (addrs_of (Suc d) h2 rest) \<Longrightarrow> h3 ! b = h2 ! b"
        and forest3: "forest_of (Suc d) h3 kept = Some (deleteRecursive i ts)"
        and sub3: "set (addrs_of (Suc d) h3 kept) \<subseteq> set (addrs_of (Suc d) h2 rest)"
        by (rule del_okE) (rule that)
      have rest2: "addrs_of (Suc d) h2 rest = addrs_of (Suc d) h rest" using r2 by simp
      have h3a: "h3 ! a = (h ! a)\<lparr>obj_subAlbums := Some s'\<rparr>"
        using frame3 [of a] a_rest rest2 h2a by simp
      have f3: "forest_of d h3 s' = forest_of d h2 s' \<and> addrs_of d h3 s' = addrs_of d h2 s'"
      proof (rule frame_forest_addrs)
        show "length h3 = length h2" by (rule len3)
        show "h3 ! b = h2 ! b" if "b \<in> set (addrs_of d h2 s')" for b
        proof (rule frame3)
          have "b \<in> set (addrs_of d h s)" using that f2 sub1 by auto
          then show "b \<notin> set (addrs_of (Suc d) h2 rest)" using disj below rest2 by auto
        qed
      qed
      have fs': "forest_of d h3 s' = Some (deleteRecursive i t)"
        using f3 f2 forest1 by simp
      have as': "set (addrs_of d h3 s') \<subseteq> set (addrs_of d h s)"
        using f3 f2 sub1 by simp
      show ?thesis
      proof (rule del_okI)
        show "deleteRecursive_store (Suc d) i (a # rest) h = Some (a # kept, h3)"
          using na False Some res1 res3 by (simp add: h2_def)
        show "length h3 = length h" using len3 len2 by simp
        show "h3 ! b = h ! b" if "b \<notin> set (addrs_of (Suc d) h (a # rest))" for b
        proof -
          have nb: "b \<noteq> a" "b \<notin> set (addrs_of d h s)" "b \<notin> set (addrs_of (Suc d) h rest)"
            using that Some by auto
          have "h3 ! b = h2 ! b" using nb(3) rest2 by (intro frame3) simp
          also have "\<dots> = h1 ! b" using nb(1) by (rule h2b)
          also have "\<dots> = h ! b" using nb(2) by (rule frame1)
          finally show ?thesis .
        qed
        show "forest_of (Suc d) h3 (a # kept) = Some (deleteRecursive i T)"
          using forest3 fs' False T subS a len3 len2 by (simp add: h3a)
        show "set (addrs_of (Suc d) h3 (a # kept)) \<subseteq> set (addrs_of (Suc d) h (a # rest))"
          using sub3 as' rest2 Some by (auto simp: h3a)
      qed
    qed
  qed
qed

lemma deleteAlbum_store_returns_deleteRecursive:
  assumes "forest_of d h albums = Some T" and "distinct (addrs_of d h albums)"
  shows "\<exists>result h'. deleteAlbum_store d i albums h = Some (result, h')
           \<and> forest_of d h' result = Some (deleteRecursive i T)"
proof -
  have "del_ok d i albums h T (deleteRecursive_store d i albums h)"
    using assms by (rule deleteRecursive_store_refines)
  then show ?thesis
    by (rule del_okE) (simp add: deleteAlbum_store_def)
qed

text \<open>
  Deleting an id that occurs nowhere, on the store: the returned array shows the forest
  that was given.
\<close>

lemma deleteAlbum_store_absent:
  assumes "forest_of d h albums = Some T" and "distinct (addrs_of d h albums)"
    and "i \<notin> set (album_ids T)"
  shows "\<exists>result h'. deleteAlbum_store d i albums h = Some (result, h')
           \<and> forest_of d h' result = Some T"
  using deleteAlbum_store_returns_deleteRecursive [OF assms(1,2), of i]
    deleteRecursive_absent [OF assms(3)]
  by simp

text \<open>
  C1 (the code departs from the claim in \<^verbatim>\<open>deleteAlbum\<close>).  In \<open>store0\<close> the root
  array \<open>[0]\<close> shows \<open>forest0\<close>.  Deleting the album \<open>b\<close> returns the array \<open>[0]\<close>
  and the store \<open>store1\<close>: the object at address 0, which belongs to the input forest,
  has been written to, and the input root array now shows a forest without the album
  \<open>b\<close>.  The returned forest is the one \<open>deleteRecursive\<close> computes on values.  On the
  same input \<^verbatim>\<open>deleteImage\<close> allocates new objects and leaves the input forest as it
  was.
\<close>

theorem C1_deleteAlbum_mutates_input:
  "forest_of 3 store0 [0] = Some forest0
   \<and> deleteAlbum_store 3 ''b'' [0] store0 = Some ([0], store1)
   \<and> forest_of 3 store1 [0] = Some [Album ''a'' ''Alps'' (Some [img1]) (Some [])]
   \<and> forest_of 3 store1 [0] \<noteq> forest_of 3 store0 [0]
   \<and> forest_of 3 store1 [0] = Some (deleteRecursive ''b'' forest0)
   \<and> deleteImage_store 3 ''p2'' [0] store0
       = Some ([2], store0 @
           [\<lparr>obj_id = ''a'', obj_name = ''Alps'', obj_images = Some [img1],
               obj_subAlbums = Some [3]\<rparr>,
            \<lparr>obj_id = ''b'', obj_name = ''Beach'', obj_images = Some [],
               obj_subAlbums = Some []\<rparr>])"
  by (simp add: eval_nat_numeral store0_def store1_def forest0_def album_a_def album_b_def
        deleteAlbum_store_def deleteImage_store_def img1_def img2_def)

section \<open>Unique identifiers\<close>

lemma listed_Nil: "listed [] = {#}"
  by (simp add: listed_def)

lemma listed_append: "listed (xs @ ys) = listed xs + listed ys"
  by (simp add: listed_def)

lemma listed_Cons: "listed (b # bs) = {#album_id b#} + mset (map image_id (or_empty (images b))) + listed bs"
  by (simp add: listed_def)

lemma listed_concat:
  "(\<And>b. b \<in> set s \<Longrightarrow> listed (albums_of b) = ids_of b) \<Longrightarrow>
   listed (concat (map albums_of s)) = sum_list (map ids_of s)"
  by (induction s) (simp_all add: listed_Nil listed_append)

lemma ids_of_albums_of: "listed (albums_of a) = ids_of a"
proof (induction a)
  case (Album i n im sub)
  show ?case
  proof (cases sub)
    case None
    then show ?thesis by (simp add: listed_Cons listed_Nil)
  next
    case (Some s)
    have "listed (concat (map albums_of s)) = sum_list (map ids_of s)"
      using Album.IH Some by (intro listed_concat) auto
    then show ?thesis
      using Some by (simp add: listed_Cons)
  qed
qed

lemma mset_forest_ids: "mset (forest_ids T) = ids_in T"
proof -
  have "mset (forest_ids T) = listed (concat (map albums_of T))"
    by (simp add: forest_ids_def album_ids_def image_ids_def all_albums_def listed_def)
  also have "\<dots> = sum_list (map ids_of T)"
    by (rule listed_concat) (rule ids_of_albums_of)
  finally show ?thesis by (simp add: ids_in_def)
qed

lemma mset_album_ids_le: "mset (album_ids T) \<subseteq># ids_in T"
  unfolding mset_forest_ids [symmetric] forest_ids_def by simp

lemma distinct_if_count_le_1: "(\<And>a. count (mset xs) a \<le> 1) \<Longrightarrow> distinct xs"
proof (induction xs)
  case Nil
  show ?case by simp
next
  case (Cons x xs)
  have "count (mset (x # xs)) x \<le> 1" by (rule Cons.prems)
  then have "count (mset xs) x = 0" by simp
  then have nx: "x \<notin> set xs" by (simp add: count_eq_zero_iff)
  have "\<And>a. count (mset xs) a \<le> 1"
  proof -
    fix a
    have "count (mset xs) a \<le> count (mset (x # xs)) a" by simp
    also have "\<dots> \<le> 1" by (rule Cons.prems)
    finally show "count (mset xs) a \<le> 1" .
  qed
  with Cons.IH nx show ?case by simp
qed

lemma distinct_of_submset:
  assumes "mset xs \<subseteq># mset ys" and "distinct ys"
  shows "distinct xs"
proof (rule distinct_if_count_le_1)
  fix a
  have "count (mset xs) a \<le> count (mset ys) a"
    using assms(1) by (rule mset_subset_eq_count)
  also have "\<dots> \<le> 1"
    using assms(2) by (simp add: distinct_count_atmost_1)
  finally show "count (mset xs) a \<le> 1" .
qed

lemma ids_in_Cons [simp]: "ids_in (a # T) = ids_of a + ids_in T"
  by (simp add: ids_in_def)

lemma ids_in_Nil [simp]: "ids_in [] = {#}"
  by (simp add: ids_in_def)

lemma ids_in_append [simp]: "ids_in (T @ U) = ids_in T + ids_in U"
  by (simp add: ids_in_def)

lemma ids_of_eq:
  "ids_of (Album i n im sub) = {#i#} + mset (map image_id (or_empty im)) + ids_in (or_empty sub)"
  by (cases sub) (simp_all add: ids_in_def or_empty_def)

lemma deleteRecursive_ids: "ids_in (deleteRecursive i T) \<subseteq># ids_in T"
proof (induction i T rule: deleteRecursive.induct)
  case (1 i)
  show ?case by simp
next
  case (2 i j n im sub rest)
  show ?case
  proof (cases "j = i")
    case True
    with "2.IH"(1) have "ids_in (deleteRecursive i rest) \<subseteq># ids_in rest" by simp
    also have "\<dots> \<subseteq># ids_in (Album j n im sub # rest)" by simp
    finally show ?thesis using True by simp
  next
    case False
    have r: "ids_in (deleteRecursive i rest) \<subseteq># ids_in rest"
      using "2.IH"(3) False by simp
    have "ids_in (or_empty (case sub of None \<Rightarrow> None | Some s \<Rightarrow> Some (deleteRecursive i s)))
            \<subseteq># ids_in (or_empty sub)"
      using "2.IH"(2) False by (cases sub) (simp_all add: or_empty_def)
    then have "ids_of (Album j n im (case sub of None \<Rightarrow> None | Some s \<Rightarrow> Some (deleteRecursive i s)))
            \<subseteq># ids_of (Album j n im sub)"
      unfolding ids_of_eq by simp
    with r show ?thesis using False
      by (simp del: ids_of.simps add: subset_mset.add_mono)
  qed
qed

lemma deleteImage_item_ids: "ids_of (deleteImage_item x a) \<subseteq># ids_of a"
proof (induction a)
  case (Album i n im sub)
  have im: "mset (map image_id (or_empty (case im of None \<Rightarrow> None
        | Some xs \<Rightarrow> Some (filter (\<lambda>img. image_id img \<noteq> x) xs))))
        \<subseteq># mset (map image_id (or_empty im))"
  proof (cases im)
    case None
    then show ?thesis by simp
  next
    case (Some xs)
    have "mset (filter (\<lambda>img. image_id img \<noteq> x) xs) \<subseteq># mset xs"
      by simp
    then have "image_mset image_id (mset (filter (\<lambda>img. image_id img \<noteq> x) xs))
                 \<subseteq># image_mset image_id (mset xs)"
      by (rule image_mset_subseteq_mono)
    then show ?thesis using Some by (simp add: or_empty_def)
  qed
  have sub: "ids_in (or_empty (case sub of None \<Rightarrow> None
        | Some s \<Rightarrow> Some (map (deleteImage_item x) s))) \<subseteq># ids_in (or_empty sub)"
  proof (cases sub)
    case None
    then show ?thesis by simp
  next
    case (Some s)
    have "\<And>b. b \<in> set s \<Longrightarrow> ids_of (deleteImage_item x b) \<subseteq># ids_of b"
      using Album.IH Some by auto
    then have "ids_in (map (deleteImage_item x) s) \<subseteq># ids_in s"
    proof (induction s)
      case Nil
      show ?case by simp
    next
      case (Cons b s)
      then show ?case by (simp add: subset_mset.add_mono)
    qed
    then show ?thesis using Some by (simp add: or_empty_def)
  qed
  show ?case
    unfolding deleteImage_item.simps ids_of_eq
    using im sub by (simp add: subset_mset.add_mono)
qed

lemma deleteFromRecursive_ids: "ids_in (deleteFromRecursive x T) \<subseteq># ids_in T"
  unfolding deleteFromRecursive_def
proof (induction T)
  case Nil
  show ?case by simp
next
  case (Cons b s)
  then show ?case by (simp add: subset_mset.add_mono deleteImage_item_ids)
qed

lemma repeat_mset_ge: "0 < c \<Longrightarrow> N \<subseteq># repeat_mset c N"
  by (cases c) simp_all

lemma repeat_mset_le_1: "c \<le> 1 \<Longrightarrow> repeat_mset c N \<subseteq># N"
  by (cases c) simp_all

lemma insert_list_ids:
  assumes "\<And>b. b \<in> set s \<Longrightarrow>
      ids_of (f b) \<subseteq># ids_of b + repeat_mset (count_list (map album_id (albums_of b)) t) N"
  shows "ids_in (map f s)
      \<subseteq># ids_in s + repeat_mset (count_list (map album_id (concat (map albums_of s))) t) N"
  using assms
proof (induction s)
  case Nil
  show ?case by simp
next
  case (Cons b s)
  have b: "ids_of (f b) \<subseteq># ids_of b + repeat_mset (count_list (map album_id (albums_of b)) t) N"
    by (rule Cons.prems) simp
  have s: "ids_in (map f s)
      \<subseteq># ids_in s + repeat_mset (count_list (map album_id (concat (map albums_of s))) t) N"
    by (rule Cons.IH) (simp add: Cons.prems)
  have "ids_of (f b) + ids_in (map f s)
      \<subseteq># (ids_of b + repeat_mset (count_list (map album_id (albums_of b)) t) N)
          + (ids_in s + repeat_mset (count_list (map album_id (concat (map albums_of s))) t) N)"
    using b s by (rule subset_mset.add_mono)
  then show ?case
    by (simp add: repeat_mset_distrib ac_simps)
qed

lemma createAlbum_updateItem_ids:
  "ids_of (createAlbum_updateItem t new a)
     \<subseteq># ids_of a + repeat_mset (count_list (map album_id (albums_of a)) t) (ids_of new)"
proof (induction a)
  case (Album i n im sub)
  show ?case
  proof (cases "i = t")
    case True
    have "ids_of (createAlbum_updateItem t new (Album i n im sub))
            = ids_of (Album i n im sub) + ids_of new"
      using True by (simp add: ids_of_eq or_empty_def del: ids_of.simps)
    moreover have "ids_of new
            \<subseteq># repeat_mset (count_list (map album_id (albums_of (Album i n im sub))) t) (ids_of new)"
      using True by (intro repeat_mset_ge) simp
    ultimately show ?thesis by simp
  next
    case False
    show ?thesis
    proof (cases sub)
      case None
      then show ?thesis using False by simp
    next
      case (Some s)
      have "ids_in (map (createAlbum_updateItem t new) s)
          \<subseteq># ids_in s + repeat_mset (count_list (map album_id (concat (map albums_of s))) t) (ids_of new)"
        using Album.IH Some by (intro insert_list_ids) auto
      then show ?thesis
        using False Some by (simp add: ids_of_eq or_empty_def del: ids_of.simps)
    qed
  qed
qed

lemma createAlbum_updateRecursive_ids:
  assumes "count_list (album_ids T) t \<le> 1"
  shows "ids_in (createAlbum_updateRecursive t new T) \<subseteq># ids_in T + ids_of new"
proof -
  have "ids_in (map (createAlbum_updateItem t new) T)
      \<subseteq># ids_in T + repeat_mset (count_list (map album_id (concat (map albums_of T))) t) (ids_of new)"
    by (intro insert_list_ids createAlbum_updateItem_ids)
  also have "\<dots> \<subseteq># ids_in T + ids_of new"
    using assms repeat_mset_le_1 [of "count_list (album_ids T) t" "ids_of new"]
    by (simp add: album_ids_def all_albums_def)
  finally show ?thesis by (simp add: createAlbum_updateRecursive_def)
qed

lemma handleFileUpload_updateItem_ids:
  "ids_of (handleFileUpload_updateItem t new a)
     \<subseteq># ids_of a + repeat_mset (count_list (map album_id (albums_of a)) t) (mset (map image_id new))"
proof (induction a)
  case (Album i n im sub)
  show ?case
  proof (cases "i = t")
    case True
    have "ids_of (handleFileUpload_updateItem t new (Album i n im sub))
            = ids_of (Album i n im sub) + mset (map image_id new)"
      using True by (simp add: ids_of_eq or_empty_def del: ids_of.simps)
    moreover have "mset (map image_id new)
            \<subseteq># repeat_mset (count_list (map album_id (albums_of (Album i n im sub))) t)
                  (mset (map image_id new))"
      using True by (intro repeat_mset_ge) simp
    ultimately show ?thesis by simp
  next
    case False
    show ?thesis
    proof (cases sub)
      case None
      then show ?thesis using False by simp
    next
      case (Some s)
      have "ids_in (map (handleFileUpload_updateItem t new) s)
          \<subseteq># ids_in s + repeat_mset (count_list (map album_id (concat (map albums_of s))) t)
                (mset (map image_id new))"
        using Album.IH Some by (intro insert_list_ids) auto
      then show ?thesis
        using False Some by (simp add: ids_of_eq or_empty_def del: ids_of.simps)
    qed
  qed
qed

lemma handleFileUpload_updateRecursive_ids:
  assumes "count_list (album_ids T) t \<le> 1"
  shows "ids_in (handleFileUpload_updateRecursive t new T) \<subseteq># ids_in T + mset (map image_id new)"
proof -
  have "ids_in (map (handleFileUpload_updateItem t new) T)
      \<subseteq># ids_in T + repeat_mset (count_list (map album_id (concat (map albums_of T))) t)
            (mset (map image_id new))"
    by (intro insert_list_ids handleFileUpload_updateItem_ids)
  also have "\<dots> \<subseteq># ids_in T + mset (map image_id new)"
    using assms repeat_mset_le_1 [of "count_list (album_ids T) t" "mset (map image_id new)"]
    by (simp add: album_ids_def all_albums_def)
  finally show ?thesis by (simp add: handleFileUpload_updateRecursive_def)
qed

lemma image_ids_newImages_from:
  "map image_id (newImages_from rnd k files) = map rnd [k..<k + length files]"
proof (induction files arbitrary: k)
  case Nil
  show ?case by simp
next
  case (Cons f files)
  have "[k..<k + length (f # files)] = k # [Suc k..<Suc k + length files]"
    by (simp add: upt_rec)
  then show ?case using Cons.IH [of "Suc k"] by simp
qed

lemma drawn_same: "drawn rnd k k = {#}"
  by (simp add: drawn_def)

lemma drawn_Suc: "drawn rnd k (Suc k) = {#rnd k#}"
  by (simp add: drawn_def)

lemma drawn_split:
  assumes "k \<le> m" and "m \<le> k'"
  shows "drawn rnd k m + drawn rnd m k' = drawn rnd k k'"
proof -
  have "[k..<k'] = [k..<m] @ [m..<k']"
    using upt_add_eq_append [OF assms(1), of "k' - m"] assms(2) by simp
  then show ?thesis by (simp add: drawn_def)
qed

lemma first_index_Some:
  "first_index P xs = Some j \<Longrightarrow> j < length xs \<and> P (xs ! j)"
proof (induction xs arbitrary: j)
  case Nil
  then show ?case by simp
next
  case (Cons x xs)
  show ?case
  proof (cases "P x")
    case True
    with Cons.prems show ?thesis by simp
  next
    case False
    with Cons.prems obtain j' where "first_index P xs = Some j'" and "j = Suc j'"
      by auto
    with Cons.IH [of j'] show ?thesis by simp
  qed
qed

lemma ids_in_update:
  "j < length ss \<Longrightarrow> ids_in (ss[j := v]) + ids_of (ss ! j) = ids_in ss + ids_of v"
proof (induction ss arbitrary: j)
  case Nil
  then show ?case by simp
next
  case (Cons b ss)
  show ?case
  proof (cases j)
    case 0
    then show ?thesis by simp
  next
    case (Suc j')
    with Cons.prems have "j' < length ss" by simp
    from Cons.IH [OF this] Suc show ?thesis
      by (simp add: ac_simps)
  qed
qed

lemma entry_ok_None: "k \<le> k' \<Longrightarrow> entry_ok rnd target k (None, k')"
  by (simp add: entry_ok_def)

lemma entry_ok_Some:
  "k \<le> k' \<Longrightarrow> album_id t' = album_id target \<Longrightarrow>
   ids_of t' = ids_of target + drawn rnd k k' \<Longrightarrow> entry_ok rnd target k (Some t', k')"
  by (simp add: entry_ok_def)

lemma entry_ok_le: "entry_ok rnd target k (r, k') \<Longrightarrow> k \<le> k'"
  by (simp add: entry_ok_def)

lemma entry_ok_id: "entry_ok rnd target k (Some t', k') \<Longrightarrow> album_id t' = album_id target"
  by (simp add: entry_ok_def)

lemma entry_ok_ids:
  "entry_ok rnd target k (Some t', k') \<Longrightarrow> ids_of t' = ids_of target + drawn rnd k k'"
  by (simp add: entry_ok_def)

lemma processEntry_ok:
  "entry_ok rnd target k (processEntry rnd e target k)"
  and processEntries_ok:
  "entry_ok rnd folder k (processEntries rnd es folder k)"
proof (induction rnd e target k and rnd es folder k rule: processEntry_processEntries.induct)
  case (1 rnd f i n im sub k)
  show ?case
  proof (cases "is_image_type (file_type f)")
    case False
    then show ?thesis by (simp add: entry_ok_def drawn_same)
  next
    case True
    show ?thesis
    proof (cases im)
      case None
      with True show ?thesis by (simp add: entry_ok_def)
    next
      case (Some xs)
      with True show ?thesis
        by (simp add: entry_ok_def drawn_Suc or_empty_def)
    qed
  qed
next
  case (2 rnd name entries i n im sub k)
  show ?case
  proof (cases sub)
    case None
    then show ?thesis by (simp add: entry_ok_def)
  next
    case (Some ss)
    show ?thesis
    proof (cases "first_index (\<lambda>f. album_name f = name) ss")
      case fi: (Some j)
      have j: "j < length ss" using first_index_Some [OF fi] by simp
      obtain r k' where res: "processEntries rnd entries (ss ! j) k = (r, k')"
        by (cases "processEntries rnd entries (ss ! j) k")
      have ok: "entry_ok rnd (ss ! j) k (r, k')"
        using "2.IH"(2) [OF Some fi] res by simp
      show ?thesis
      proof (cases r)
        case None
        with Some fi res ok show ?thesis
          by (simp add: entry_ok_le entry_ok_None)
      next
        case r: (Some folder)
        have ids: "ids_of folder = ids_of (ss ! j) + drawn rnd k k'"
          using ok r by (simp add: entry_ok_ids)
        have "ids_in (ss[j := folder]) + ids_of (ss ! j) = ids_in ss + ids_of folder"
          by (rule ids_in_update [OF j])
        with ids have "ids_in (ss[j := folder]) = ids_in ss + drawn rnd k k'"
          by (simp add: ac_simps)
        then have "ids_of (Album i n im (Some (ss[j := folder])))
                     = ids_of (Album i n im (Some ss)) + drawn rnd k k'"
          by (simp add: ids_of_eq or_empty_def del: ids_of.simps)
        moreover have "k \<le> k'" using ok by (rule entry_ok_le)
        ultimately show ?thesis
          using Some fi res r by (simp add: entry_ok_def del: ids_of.simps)
      qed
    next
      case fi: None
      let ?new = "Album (rnd k) name (Some []) (Some [])"
      obtain r k' where res: "processEntries rnd entries ?new (Suc k) = (r, k')"
        by (cases "processEntries rnd entries ?new (Suc k)")
      have ok: "entry_ok rnd ?new (Suc k) (r, k')"
        using "2.IH"(1) [OF Some fi] res by simp
      have le: "Suc k \<le> k'" using ok by (rule entry_ok_le)
      show ?thesis
      proof (cases r)
        case None
        with Some fi res le show ?thesis
          by (simp add: entry_ok_def)
      next
        case r: (Some folder)
        have "ids_of folder = ids_of ?new + drawn rnd (Suc k) k'"
          using ok r by (simp add: entry_ok_ids)
        also have "ids_of ?new = drawn rnd k (Suc k)"
          by (simp add: drawn_Suc or_empty_def)
        also have "drawn rnd k (Suc k) + drawn rnd (Suc k) k' = drawn rnd k k'"
          using le by (intro drawn_split) simp_all
        finally have "ids_of folder = drawn rnd k k'" .
        then have "ids_of (Album i n im (Some (ss @ [folder])))
                     = ids_of (Album i n im (Some ss)) + drawn rnd k k'"
          by (simp add: ids_of_eq or_empty_def del: ids_of.simps)
        then show ?thesis
          using Some fi res r le by (simp add: entry_ok_def del: ids_of.simps)
      qed
    qed
  qed
next
  case (3 rnd target k)
  show ?case by (simp add: entry_ok_def drawn_same)
next
  case (4 rnd folder k)
  show ?case by (simp add: entry_ok_def drawn_same)
next
  case (5 rnd e es folder k)
  obtain r k1 where res: "processEntry rnd e folder k = (r, k1)"
    by (cases "processEntry rnd e folder k")
  have ok1: "entry_ok rnd folder k (r, k1)"
    using "5.IH"(1) res by simp
  have le1: "k \<le> k1" using ok1 by (rule entry_ok_le)
  show ?case
  proof (cases r)
    case None
    with res le1 show ?thesis by (simp add: entry_ok_def)
  next
    case r: (Some folder')
    obtain r2 k2 where res2: "processEntries rnd es folder' k1 = (r2, k2)"
      by (cases "processEntries rnd es folder' k1")
    have ok2: "entry_ok rnd folder' k1 (r2, k2)"
      using "5.IH"(2) [OF res [symmetric] r] res2 by simp
    have le2: "k1 \<le> k2" using ok2 by (rule entry_ok_le)
    show ?thesis
    proof (cases r2)
      case None
      with res r res2 le1 le2 show ?thesis by (simp add: entry_ok_def)
    next
      case r2: (Some folder'')
      have "ids_of folder'' = ids_of folder' + drawn rnd k1 k2"
        using ok2 r2 by (simp add: entry_ok_ids)
      also have "ids_of folder' = ids_of folder + drawn rnd k k1"
        using ok1 r by (simp add: entry_ok_ids)
      finally have "ids_of folder'' = ids_of folder + (drawn rnd k k1 + drawn rnd k1 k2)"
        by (simp add: ac_simps)
      also have "drawn rnd k k1 + drawn rnd k1 k2 = drawn rnd k k2"
        using le1 le2 by (rule drawn_split)
      finally have ids: "ids_of folder'' = ids_of folder + drawn rnd k k2" .
      have "album_id folder'' = album_id folder"
        using ok1 ok2 r r2 by (simp add: entry_ok_def)
      with ids le1 le2 res r res2 r2 show ?thesis
        by (simp add: entry_ok_def)
    qed
  qed
qed

lemma processItems_ok: "entry_ok rnd target k (processItems rnd dropped target k)"
proof (induction dropped arbitrary: target k)
  case Nil
  show ?case by (simp add: entry_ok_def drawn_same)
next
  case (Cons item rest)
  show ?case
  proof (cases "item_kind item = ''file'' \<and> item_entry item \<noteq> None")
    case False
    then have "processItems rnd (item # rest) target k = processItems rnd rest target k"
      by (cases "item_entry item") auto
    then show ?thesis using Cons.IH by simp
  next
    case True
    then obtain e where e: "item_entry item = Some e" and kind: "item_kind item = ''file''"
      by auto
    obtain r k1 where res: "processEntry rnd e target k = (r, k1)"
      by (cases "processEntry rnd e target k")
    have ok1: "entry_ok rnd target k (r, k1)"
      using processEntry_ok [of rnd target k e] res by simp
    have le1: "k \<le> k1" using ok1 by (rule entry_ok_le)
    show ?thesis
    proof (cases r)
      case None
      with e kind res le1 show ?thesis by (simp add: entry_ok_def)
    next
      case r: (Some target')
      obtain r2 k2 where res2: "processItems rnd rest target' k1 = (r2, k2)"
        by (cases "processItems rnd rest target' k1")
      have ok2: "entry_ok rnd target' k1 (r2, k2)"
        using Cons.IH [of target' k1] res2 by simp
      have le2: "k1 \<le> k2" using ok2 by (rule entry_ok_le)
      have eq: "processItems rnd (item # rest) target k = (r2, k2)"
        using e kind res r res2 by simp
      show ?thesis
      proof (cases r2)
        case None
        with eq le1 le2 show ?thesis by (simp add: entry_ok_def)
      next
        case r2: (Some target'')
        have "ids_of target'' = ids_of target' + drawn rnd k1 k2"
          using ok2 r2 by (simp add: entry_ok_ids)
        also have "ids_of target' = ids_of target + drawn rnd k k1"
          using ok1 r by (simp add: entry_ok_ids)
        finally have "ids_of target'' = ids_of target + (drawn rnd k k1 + drawn rnd k1 k2)"
          by (simp add: ac_simps)
        also have "drawn rnd k k1 + drawn rnd k1 k2 = drawn rnd k k2"
          using le1 le2 by (rule drawn_split)
        finally have ids: "ids_of target'' = ids_of target + drawn rnd k k2" .
        have "album_id target'' = album_id target"
          using ok1 ok2 r r2 by (simp add: entry_ok_def)
        with ids le1 le2 eq r2 show ?thesis
          by (simp add: entry_ok_def)
      qed
    qed
  qed
qed

lemma replace_at_ids:
  "album_at T p = Some target \<Longrightarrow>
   ids_in (replace_at p new T) + ids_of target = ids_in T + ids_of new"
proof (induction T p arbitrary: target rule: album_at.induct)
  case (1 list)
  then show ?case by simp
next
  case (2 list j)
  then have j: "j < length list" and t: "target = list ! j"
    by (auto split: if_splits)
  from ids_in_update [OF j, of new] t show ?case by simp
next
  case (3 list j v va)
  from "3.prems" have j: "j < length list" by (simp split: if_splits)
  from "3.prems" j obtain s where s: "subAlbums (list ! j) = Some s"
    and at: "album_at s (v # va) = Some target"
    by (auto split: option.splits)
  have IH: "ids_in (replace_at (v # va) new s) + ids_of target = ids_in s + ids_of new"
    using "3.IH" [OF j s at] .
  obtain i n im where lj: "list ! j = Album i n im (Some s)"
    using s by (cases "list ! j") auto
  let ?b = "Album i n im (Some (replace_at (v # va) new s))"
  have "ids_in (list[j := ?b]) + ids_of (list ! j) = ids_in list + ids_of ?b"
    by (rule ids_in_update [OF j])
  moreover have "ids_of ?b + ids_of target = ids_of (list ! j) + ids_of new"
    using IH unfolding lj ids_of_eq by (simp add: or_empty_def ac_simps)
  ultimately have "ids_in (list[j := ?b]) + ids_of (list ! j) + ids_of target
      = ids_in list + ids_of (list ! j) + ids_of new"
    by (simp add: ac_simps)
  then have "ids_in (list[j := ?b]) + ids_of target = ids_in list + ids_of new"
    by (simp add: ac_simps)
  moreover have "replace_at (j # v # va) new list = list[j := ?b]"
    using lj by simp
  ultimately show ?case by simp
qed

lemma album_at_snoc:
  "array_at T pos = Some list \<Longrightarrow> j < length list \<Longrightarrow> album_at T (pos @ [j]) = Some (list ! j)"
proof (induction T pos arbitrary: list rule: album_at.induct)
  case (1 T)
  then show ?case by (simp add: array_at_def)
next
  case (2 T i)
  then show ?case
    by (cases "i < length T") (auto simp: array_at_def split: option.splits)
next
  case (3 T i v va)
  from "3.prems"(1) have i: "i < length T"
    by (auto simp: array_at_def split: if_splits option.splits)
  with "3.prems"(1) obtain s where s: "subAlbums (T ! i) = Some s"
    and a: "array_at s (v # va) = Some list"
    by (auto simp: array_at_def split: option.splits)
  from "3.IH" [OF i s a "3.prems"(2)] i s show ?case by simp
qed

lemma find_target_valid:
  assumes "find_target path current pos found = Some (Some p)"
    and "current = array_at T pos"
    and "\<And>q. found = Some q \<Longrightarrow> album_at T q \<noteq> None"
  shows "album_at T p \<noteq> None"
  using assms
proof (induction path current pos found rule: find_target.induct)
  case (1 current pos found)
  then show ?case by simp
next
  case (2 i rest current pos found)
  from "2.prems"(1) obtain list where list: "current = Some list"
    by (cases current) auto
  show ?case
  proof (cases "first_index (\<lambda>a. album_id a = i) list")
    case None
    have "find_target rest (Some list) pos None = Some (Some p)"
      using "2.prems"(1) list None by simp
    from "2.IH"(1) [OF list None this] "2.prems"(2) list show ?thesis by simp
  next
    case (Some j)
    have j: "j < length list" using first_index_Some [OF Some] by simp
    have at: "album_at T (pos @ [j]) = Some (list ! j)"
      using album_at_snoc [of T pos list j] "2.prems"(2) list j by simp
    have r: "find_target rest (subAlbums (list ! j)) (pos @ [j]) (Some (pos @ [j])) = Some (Some p)"
      using "2.prems"(1) list Some by simp
    have "subAlbums (list ! j) = array_at T (pos @ [j])"
      using at by (simp add: array_at_def)
    from "2.IH"(2) [OF list Some r this] at show ?thesis by simp
  qed
qed

lemma handleDrop_target_exists:
  "find_target path (Some T) [] None = Some (Some p) \<Longrightarrow> album_at T p \<noteq> None"
  by (rule find_target_valid [of path "Some T" "[]" None p T]) (simp_all add: array_at_def)

lemma draws_syncToBackend: "draws (syncToBackend net t s) = draws s"
  by (simp add: syncToBackend_def dispatch_def fetch_def Let_def split: response.splits)

lemma draws_persistChanges: "draws (persistChanges net t s) = draws s"
  by (simp add: persistChanges_def draws_syncToBackend dispatch_def)

lemma currentPath_persistChanges: "currentPath (persistChanges net t s) = currentPath s"
  by (simp add: persistChanges_def syncToBackend_def dispatch_def fetch_def Let_def
        split: response.splits)

lemma distinct_drawn: "inj rnd \<Longrightarrow> distinct (map rnd [0..<n])"
  by (simp add: distinct_map inj_on_def inj_def)

lemma ids_drawn_distinct:
  assumes "inj rnd" and "ids_drawn rnd s"
  shows "distinct (forest_ids (items (state s)))"
proof (rule distinct_of_submset)
  show "mset (forest_ids (items (state s))) \<subseteq># mset (map rnd [0..<draws s])"
    using assms(2) by (simp add: ids_drawn_def mset_forest_ids drawn_def)
  show "distinct (map rnd [0..<draws s])" using assms(1) by (rule distinct_drawn)
qed

lemma count_list_le_1_if_distinct: "distinct xs \<Longrightarrow> count_list xs t \<le> 1"
  by (induction xs) (auto simp: count_list_0_iff)

lemma ids_drawn_count:
  assumes "inj rnd" and "ids_drawn rnd s"
  shows "count_list (album_ids (items (state s))) t \<le> 1"
proof -
  have "distinct (forest_ids (items (state s)))"
    using assms by (rule ids_drawn_distinct)
  then have "distinct (album_ids (items (state s)))"
    by (simp add: forest_ids_def)
  then show ?thesis by (rule count_list_le_1_if_distinct)
qed

lemma ids_drawn_step:
  assumes inv: "ids_drawn rnd s"
    and le: "draws s \<le> k'"
    and sub: "ids_in T' \<subseteq># ids_in (items (state s)) + drawn rnd (draws s) k'"
  shows "ids_drawn rnd (persistChanges net T' (s\<lparr>draws := k'\<rparr>))"
proof -
  have "ids_in T' \<subseteq># ids_in (items (state s)) + drawn rnd (draws s) k'" by (rule sub)
  also have "\<dots> \<subseteq># drawn rnd 0 (draws s) + drawn rnd (draws s) k'"
    using inv by (simp add: ids_drawn_def)
  also have "\<dots> = drawn rnd 0 k'"
    using le by (intro drawn_split) simp_all
  finally show ?thesis
    by (simp add: ids_drawn_def state_persistChanges draws_persistChanges)
qed

lemma ids_drawn_more:
  assumes inv: "ids_drawn rnd s" and le: "draws s \<le> k'"
  shows "ids_drawn rnd (s\<lparr>draws := k'\<rparr>)"
proof -
  have "drawn rnd 0 (draws s) + drawn rnd (draws s) k' = drawn rnd 0 k'"
    using le by (intro drawn_split) simp_all
  moreover have "drawn rnd 0 (draws s) \<subseteq># drawn rnd 0 (draws s) + drawn rnd (draws s) k'"
    by simp
  ultimately have "drawn rnd 0 (draws s) \<subseteq># drawn rnd 0 k'"
    by simp
  with inv show ?thesis
    by (auto simp: ids_drawn_def intro: subset_mset.order_trans)
qed

lemma ids_drawn_createAlbum:
  assumes "inj rnd" and inv: "ids_drawn rnd s"
  shows "ids_drawn rnd (createAlbum rnd net s)"
proof (cases "trim (newAlbumName s) = []")
  case True
  with inv show ?thesis by (simp add: createAlbum_def)
next
  case False
  let ?new = "Album (rnd (draws s)) (newAlbumName s) (Some []) (Some [])"
  let ?T = "items (state s)"
  let ?T' = "if currentPath s = [] then ?T @ [?new]
             else createAlbum_updateRecursive (last (currentPath s)) ?new ?T"
  have new: "ids_of ?new = drawn rnd (draws s) (Suc (draws s))"
    by (simp add: drawn_Suc or_empty_def)
  have "ids_in ?T' \<subseteq># ids_in ?T + ids_of ?new"
  proof (cases "currentPath s = []")
    case True
    then show ?thesis by (simp del: ids_of.simps)
  next
    case False
    have "count_list (album_ids ?T) (last (currentPath s)) \<le> 1"
      using assms by (rule ids_drawn_count)
    from createAlbum_updateRecursive_ids [OF this, of ?new] False show ?thesis
      by (simp del: ids_of.simps)
  qed
  then have "ids_in ?T' \<subseteq># ids_in ?T + drawn rnd (draws s) (Suc (draws s))"
    unfolding new .
  from ids_drawn_step [OF inv _ this, of net]
  have "ids_drawn rnd (persistChanges net ?T' (s\<lparr>draws := Suc (draws s)\<rparr>))" by simp
  then have "ids_drawn rnd ((persistChanges net ?T' (s\<lparr>draws := Suc (draws s)\<rparr>))
               \<lparr>newAlbumName := [], isCreatingAlbum := False\<rparr>)"
    by (simp add: ids_drawn_def)
  then show ?thesis using False by (simp add: createAlbum_def Let_def)
qed

lemma ids_drawn_handleFileUpload:
  assumes "inj rnd" and inv: "ids_drawn rnd s"
  shows "ids_drawn rnd (handleFileUpload rnd net files s)"
proof (cases "files = [] \<or> currentPath s = []")
  case True
  with inv show ?thesis by (simp add: handleFileUpload_def)
next
  case False
  let ?new = "newImages_from rnd (draws s) files"
  let ?T = "items (state s)"
  let ?T' = "handleFileUpload_updateRecursive (last (currentPath s)) ?new ?T"
  have "count_list (album_ids ?T) (last (currentPath s)) \<le> 1"
    using assms by (rule ids_drawn_count)
  from handleFileUpload_updateRecursive_ids [OF this, of ?new]
  have "ids_in ?T' \<subseteq># ids_in ?T + drawn rnd (draws s) (draws s + length files)"
    by (simp add: image_ids_newImages_from drawn_def)
  from ids_drawn_step [OF inv _ this, of net] False show ?thesis
    by (simp add: handleFileUpload_def Let_def)
qed

lemma ids_drawn_deleteAlbum:
  assumes inv: "ids_drawn rnd s"
  shows "ids_drawn rnd (deleteAlbum net i s)"
proof -
  have "ids_in (deleteRecursive i (items (state s))) \<subseteq># ids_in (items (state s))"
    by (rule deleteRecursive_ids)
  also have "\<dots> \<subseteq># drawn rnd 0 (draws s)" using inv by (simp add: ids_drawn_def)
  finally show ?thesis
    by (simp add: ids_drawn_def deleteAlbum_def state_persistChanges draws_persistChanges)
qed

lemma ids_drawn_deleteImage:
  assumes inv: "ids_drawn rnd s"
  shows "ids_drawn rnd (deleteImage net x s)"
proof -
  have "ids_in (deleteFromRecursive x (items (state s))) \<subseteq># ids_in (items (state s))"
    by (rule deleteFromRecursive_ids)
  also have "\<dots> \<subseteq># drawn rnd 0 (draws s)" using inv by (simp add: ids_drawn_def)
  finally show ?thesis
    by (simp add: ids_drawn_def deleteImage_def state_persistChanges draws_persistChanges)
qed

lemma ids_drawn_handleDrop:
  assumes inv: "ids_drawn rnd s"
  shows "ids_drawn rnd (handleDrop rnd net dropped s)"
proof (cases dropped)
  case None
  with inv show ?thesis by (simp add: handleDrop_def)
next
  case (Some dropped_items)
  let ?T = "items (state s)"
  show ?thesis
  proof (cases "find_target (currentPath s) (Some ?T) [] None")
    case None
    with Some inv show ?thesis by (simp add: handleDrop_def)
  next
    case found: (Some found)
    show ?thesis
    proof (cases found)
      case None
      let ?root = "Album [] [] (Some []) (Some ?T)"
      obtain r k where res: "processItems rnd dropped_items ?root (draws s) = (r, k)"
        by (cases "processItems rnd dropped_items ?root (draws s)")
      have ok: "entry_ok rnd ?root (draws s) (r, k)"
        using processItems_ok [of rnd ?root "draws s" dropped_items] res by simp
      have le: "draws s \<le> k" using ok by (rule entry_ok_le)
      show ?thesis
      proof (cases r)
        case r: None
        have "handleDrop rnd net dropped s = s\<lparr>draws := k\<rparr>"
          using Some found None res r by (simp add: handleDrop_def)
        with ids_drawn_more [OF inv le] show ?thesis by simp
      next
        case r: (Some root)
        obtain i n im sub where root: "root = Album i n im sub" by (cases root)
        have "ids_of root = ids_of ?root + drawn rnd (draws s) k"
          using ok r by (simp add: entry_ok_ids)
        moreover have "i = []" using ok r root by (simp add: entry_ok_def)
        ultimately have "{#[]#} + mset (map image_id (or_empty im)) + ids_in (or_empty sub)
            = {#[]#} + ids_in ?T + drawn rnd (draws s) k"
          unfolding root ids_of_eq by (simp add: or_empty_def)
        then have "mset (map image_id (or_empty im)) + ids_in (or_empty sub)
            = ids_in ?T + drawn rnd (draws s) k"
          by simp
        moreover have "ids_in (or_empty sub)
            \<subseteq># mset (map image_id (or_empty im)) + ids_in (or_empty sub)"
          by simp
        ultimately have "ids_in (or_empty sub) \<subseteq># ids_in ?T + drawn rnd (draws s) k"
          by simp
        then have "ids_in (or_empty (subAlbums root)) \<subseteq># ids_in ?T + drawn rnd (draws s) k"
          by (simp add: root)
        from ids_drawn_step [OF inv le this, of net]
        show ?thesis using Some found None res r by (simp add: handleDrop_def)
      qed
    next
      case p: (Some p)
      show ?thesis
      proof (cases "album_at ?T p")
        case None
        with Some found p inv show ?thesis by (simp add: handleDrop_def)
      next
        case at: (Some targetNode)
        obtain r k where res: "processItems rnd dropped_items targetNode (draws s) = (r, k)"
          by (cases "processItems rnd dropped_items targetNode (draws s)")
        have ok: "entry_ok rnd targetNode (draws s) (r, k)"
          using processItems_ok [of rnd targetNode "draws s" dropped_items] res by simp
        have le: "draws s \<le> k" using ok by (rule entry_ok_le)
        show ?thesis
        proof (cases r)
          case r: None
          have "handleDrop rnd net dropped s = s\<lparr>draws := k\<rparr>"
            using Some found p at res r by (simp add: handleDrop_def)
          with ids_drawn_more [OF inv le] show ?thesis by simp
        next
          case r: (Some targetNode')
          have ids: "ids_of targetNode' = ids_of targetNode + drawn rnd (draws s) k"
            using ok r by (simp add: entry_ok_ids)
          have "ids_in (replace_at p targetNode' ?T) + ids_of targetNode
                  = ids_in ?T + ids_of targetNode'"
            by (rule replace_at_ids [OF at])
          with ids have "ids_in (replace_at p targetNode' ?T) + ids_of targetNode
                  = (ids_in ?T + drawn rnd (draws s) k) + ids_of targetNode"
            by (simp add: ac_simps)
          then have "ids_in (replace_at p targetNode' ?T) = ids_in ?T + drawn rnd (draws s) k"
            by simp
          then have "ids_in (replace_at p targetNode' ?T) \<subseteq># ids_in ?T + drawn rnd (draws s) k"
            by simp
          from ids_drawn_step [OF inv le this, of net]
          show ?thesis using Some found p at res r by (simp add: handleDrop_def)
        qed
      qed
    qed
  qed
qed

lemma reachable_ids_drawn:
  assumes "inj rnd" and "reachable rnd s"
  shows "ids_drawn rnd s"
  using assms(2)
proof (induction rule: reachable.induct)
  case start
  show ?case by (simp add: ids_drawn_def initialApp_def initialState_def drawn_def)
next
  case (navigate s p)
  then show ?case by (simp add: ids_drawn_def)
next
  case (type_name s n)
  then show ?case by (simp add: ids_drawn_def)
next
  case (create_album s net)
  then show ?case using assms(1) by (simp add: ids_drawn_createAlbum)
next
  case (upload s net files)
  then show ?case using assms(1) by (simp add: ids_drawn_handleFileUpload)
next
  case (drop s net dropped)
  then show ?case by (simp add: ids_drawn_handleDrop)
next
  case (delete_album s net i)
  then show ?case by (simp add: ids_drawn_deleteAlbum)
next
  case (delete_image s net x)
  then show ?case by (simp add: ids_drawn_deleteImage)
qed

lemma inj_rnd_fresh: "inj rnd_fresh"
proof (rule injI)
  fix x y
  assume "rnd_fresh x = rnd_fresh y"
  then have "length (rnd_fresh x) = length (rnd_fresh y)" by simp
  then show "x = y" by (simp add: rnd_fresh_def)
qed

lemma reachable_two_folders: "reachable rnd (two_folders rnd)"
  unfolding two_folders_def
  by (intro reachable.create_album reachable.type_name reachable.start)

lemma reachable_folder_dropped: "reachable rnd (folder_dropped rnd)"
  unfolding folder_dropped_def
  by (intro reachable.drop reachable.navigate reachable.create_album reachable.type_name
        reachable.start)

lemma items_two_folders:
  "items (state (two_folders rnd))
     = [Album (rnd 0) ''A'' (Some []) (Some []), Album (rnd 1) ''B'' (Some []) (Some [])]"
  by (simp add: two_folders_def createAlbum_def trim_def is_ws_def state_persistChanges
        draws_persistChanges currentPath_persistChanges initialApp_def initialState_def
        Let_def)

text \<open>
  C7 (as stated, refuted).  When the generator yields the same identifier at two draws,
  creating two folders at the root gives a forest in which two albums have the same id.
\<close>

theorem C7_unique_ids_counterexample:
  "reachable rnd_same (two_folders rnd_same)
   \<and> items (state (two_folders rnd_same))
       = [Album ''x'' ''A'' (Some []) (Some []), Album ''x'' ''B'' (Some []) (Some [])]
   \<and> forest_ids (items (state (two_folders rnd_same))) = [''x'', ''x'']
   \<and> \<not> distinct (forest_ids (items (state (two_folders rnd_same))))"
  by (simp add: reachable_two_folders items_two_folders rnd_same_def forest_ids_def
        album_ids_def image_ids_def all_albums_def or_empty_def)

text \<open>
  C7 (amended).  Provided the generator never yields the same identifier at two draws,
  in every state reachable from the empty forest by navigation and the five handlers
  (create album, upload, folder drop, delete album, delete image) the identifiers of all
  albums and all images of the forest are pairwise distinct.
\<close>

theorem C7_unique_ids:
  assumes "inj rnd" and "reachable rnd s"
  shows "distinct (forest_ids (items (state s)))"
  using assms by (intro ids_drawn_distinct reachable_ids_drawn)

theorem C7_unique_ids_witness:
  "inj rnd_fresh
   \<and> reachable rnd_fresh (folder_dropped rnd_fresh)
   \<and> items (state (folder_dropped rnd_fresh))
       = [Album ''x'' ''A'' (Some [])
            (Some [Album ''xx'' ''D'' (Some [Image ''xxx'' ''three.png'' ''blob:3'' ''3.0 KB''])
                     (Some [])])]
   \<and> distinct (forest_ids (items (state (folder_dropped rnd_fresh))))"
proof -
  have "items (state (folder_dropped rnd_fresh))
       = [Album ''x'' ''A'' (Some [])
            (Some [Album ''xx'' ''D'' (Some [Image ''xxx'' ''three.png'' ''blob:3'' ''3.0 KB''])
                     (Some [])])]"
    by (simp add: folder_dropped_def handleDrop_def createAlbum_def trim_def is_ws_def
          state_persistChanges draws_persistChanges currentPath_persistChanges
          initialApp_def initialState_def Let_def rnd_fresh_def file3_def is_image_type_def)
  with C7_unique_ids [OF inj_rnd_fresh reachable_folder_dropped]
  show ?thesis by (simp add: inj_rnd_fresh reachable_folder_dropped)
qed

end
